theory Spec2Isabelle
  imports Complex_Main
begin

section \<open>The chained hash map of hash\_map.h\<close>

text \<open>
  The map owns its Items through shared pointers: a bucket slot points at the head of a
  chain and every Item points at its successor. Items are mutated in place (the value on
  an update, the successor link on an insert and on a resize) and iterators hold raw
  pointers to them, so the Items live in an explicit store: \<open>items\<close> is the list of all
  Item objects the map has allocated, and a pointer to an Item is its index in that list
  (\<open>None\<close> is the null pointer). The map never releases an Item before its own
  destruction, so the store only grows, by \<open>new Item\<close> in \<open>insert\<close>.

  Sizes and counts (\<open>size_t\<close>) are natural numbers: an Item holds a shared pointer, so
  the number of entries times three plus five stays far below the range of \<open>size_t\<close>.
  The hash function \<open>boost::hash<Key>\<close> is a parameter \<open>hf\<close> of the operations.
\<close>

type_synonym addr = nat

datatype error =
    ModuloByZero
  | NullDereference
  | DanglingPointer
  | OutOfBounds
  | AssertionFailed

record ('k, 'v) Item =
  mKeyValuePair :: "'k \<times> 'v"
  mNext :: "addr option"

record ('k, 'v) HashMap =
  items :: "('k, 'v) Item list"
  mBuckets :: "addr option list"
  mSize :: nat
  mNumEntries :: nat

text \<open>\<open>ItemPair\<close> and \<open>ConstItemPair\<close>: a pointer to an Item and its bucket position.\<close>

type_synonym ItemPair = "addr option \<times> nat"

text \<open>The two iterator classes. \<open>mParent\<close> is a pointer to the parent map; maps are
  identified by an address of their own.\<close>

record iterator =
  mCurrentItem :: ItemPair
  mParent :: "nat option"

record const_iterator =
  mCurrentItemC :: ItemPair
  mParentC :: "nat option"

definition new_iterator :: "addr option \<Rightarrow> nat \<Rightarrow> nat option \<Rightarrow> iterator" where
  "new_iterator aCurrentItem aBucketPosition aParent =
     \<lparr>mCurrentItem = (aCurrentItem, aBucketPosition), mParent = aParent\<rparr>"

definition new_const_iterator :: "addr option \<Rightarrow> nat \<Rightarrow> nat option \<Rightarrow> const_iterator" where
  "new_const_iterator aCurrentItem aBucketPosition aParent =
     \<lparr>mCurrentItemC = (aCurrentItem, aBucketPosition), mParentC = aParent\<rparr>"

text \<open>The converting constructor \<open>const_iterator( iterator& )\<close>.\<close>

definition to_const_iterator :: "iterator \<Rightarrow> const_iterator" where
  "to_const_iterator aOther =
     \<lparr>mCurrentItemC = mCurrentItem aOther, mParentC = mParent aOther\<rparr>"

text \<open>\<open>operator==\<close> of both classes compares the item pairs only.\<close>

definition iterator_eq :: "iterator \<Rightarrow> iterator \<Rightarrow> bool" where
  "iterator_eq a b \<longleftrightarrow> mCurrentItem a = mCurrentItem b"

definition const_iterator_eq :: "const_iterator \<Rightarrow> const_iterator \<Rightarrow> bool" where
  "const_iterator_eq a b \<longleftrightarrow> mCurrentItemC a = mCurrentItemC b"

subsection \<open>Construction, size, end\<close>

definition HashMap_init :: "nat \<Rightarrow> ('k, 'v) HashMap" where
  "HashMap_init aSize =
     \<lparr>items = [], mBuckets = replicate aSize None, mSize = aSize, mNumEntries = 0\<rparr>"

definition empty_hm :: "('k, 'v) HashMap \<Rightarrow> bool" where
  "empty_hm t \<longleftrightarrow> mNumEntries t = 0"

definition size_hm :: "('k, 'v) HashMap \<Rightarrow> nat" where
  "size_hm t = mNumEntries t"

text \<open>\<open>end()\<close> is \<open>iterator( 0, 0, 0 )\<close>: it does not mention the map it is called on.\<close>

definition end_hm :: iterator where
  "end_hm = new_iterator None 0 None"

text \<open>Dereferencing asserts that the current item is not null.\<close>

definition deref :: "('k, 'v) HashMap \<Rightarrow> iterator \<Rightarrow> error + 'k \<times> 'v" where
  "deref t it =
     (case fst (mCurrentItem it) of
        None \<Rightarrow> Inl AssertionFailed
      | Some c \<Rightarrow>
          if length (items t) \<le> c then Inl DanglingPointer
          else Inr (mKeyValuePair (items t ! c)))"

subsection \<open>find\<close>

text \<open>
  The chain walks are \<open>while\<close> loops that follow the successor links. On a store whose
  links form a cycle they do not return; the result \<open>None\<close> stands for that, and
  \<open>Some (Inl e)\<close> for a failed assertion or an undefined operation.
\<close>

partial_function (option) find_walk ::
  "('k, 'v) Item list \<Rightarrow> 'k \<Rightarrow> addr option \<Rightarrow> (error + addr option) option" where
  "find_walk st aKey cur =
     (case cur of
        None \<Rightarrow> Some (Inr None)
      | Some c \<Rightarrow>
          if length st \<le> c then Some (Inl DanglingPointer)
          else if fst (mKeyValuePair (st ! c)) = aKey then Some (Inr (Some c))
          else find_walk st aKey (mNext (st ! c)))"

definition find_hm ::
  "nat \<Rightarrow> ('k \<Rightarrow> nat) \<Rightarrow> 'k \<Rightarrow> ('k, 'v) HashMap \<Rightarrow> (error + iterator) option" where
  "find_hm this hf aKey t =
     (if mSize t = 0 then Some (Inl ModuloByZero)
      else if length (mBuckets t) \<le> hf aKey mod mSize t then Some (Inl OutOfBounds)
      else
        (case find_walk (items t) aKey (mBuckets t ! (hf aKey mod mSize t)) of
           None \<Rightarrow> None
         | Some (Inl e) \<Rightarrow> Some (Inl e)
         | Some (Inr None) \<Rightarrow> Some (Inr end_hm)
         | Some (Inr (Some c)) \<Rightarrow>
             Some (Inr (new_iterator (Some c) (hf aKey mod mSize t) (Some this)))))"

subsection \<open>resize\<close>

text \<open>The first loop of \<open>resize\<close>: every Item of every chain goes to the temporary list.\<close>

partial_function (option) collect_chain ::
  "('k, 'v) Item list \<Rightarrow> addr option \<Rightarrow> addr list \<Rightarrow> (error + addr list) option" where
  "collect_chain st cur temporaryList =
     (case cur of
        None \<Rightarrow> Some (Inr temporaryList)
      | Some c \<Rightarrow>
          if length st \<le> c then Some (Inl DanglingPointer)
          else if cur = mNext (st ! c) then Some (Inl AssertionFailed)
          else collect_chain st (mNext (st ! c)) (temporaryList @ [c]))"

fun collect_buckets ::
  "('k, 'v) Item list \<Rightarrow> addr option list \<Rightarrow> nat list \<Rightarrow> addr list \<Rightarrow>
   (error + addr list) option" where
  "collect_buckets st bs [] temporaryList = Some (Inr temporaryList)"
| "collect_buckets st bs (i # rest) temporaryList =
     (if length bs \<le> i then Some (Inl OutOfBounds)
      else
        (case collect_chain st (bs ! i) temporaryList of
           None \<Rightarrow> None
         | Some (Inl e) \<Rightarrow> Some (Inl e)
         | Some (Inr temporaryList') \<Rightarrow> collect_buckets st bs rest temporaryList'))"

text \<open>Writing the successor link of the Item at an address: \<open>mNext.reset()\<close> and the
  assignments to \<open>mNext\<close>.\<close>

definition set_next ::
  "addr \<Rightarrow> addr option \<Rightarrow> ('k, 'v) Item list \<Rightarrow> ('k, 'v) Item list" where
  "set_next a n st = st[a := (st ! a)\<lparr>mNext := n\<rparr>]"

text \<open>The search for the last Item of a non-empty chain, in the second loop.\<close>

partial_function (option) find_tail ::
  "('k, 'v) Item list \<Rightarrow> addr \<Rightarrow> (error + addr) option" where
  "find_tail st cur =
     (if length st \<le> cur then Some (Inl DanglingPointer)
      else
        (case mNext (st ! cur) of
           None \<Rightarrow> Some (Inr cur)
         | Some n \<Rightarrow>
             if cur = n then Some (Inl AssertionFailed)
             else find_tail st n))"

text \<open>
  \<open>use_count\<close> of the shared pointers to an Item during the second loop of \<open>resize\<close>:
  the temporary list, the bucket slots and the successor links of the Items.
  \<open>unique()\<close> holds when the count is one; a null pointer is not unique.
\<close>

definition use_count ::
  "('k, 'v) HashMap \<Rightarrow> addr list \<Rightarrow> addr \<Rightarrow> nat" where
  "use_count t temporaryList x =
     count_list temporaryList x + count_list (mBuckets t) (Some x)
       + length (filter (\<lambda>it. mNext it = Some x) (items t))"

definition next_unique :: "('k, 'v) HashMap \<Rightarrow> addr list \<Rightarrow> addr \<Rightarrow> bool" where
  "next_unique t temporaryList p =
     (case mNext (items t ! p) of
        None \<Rightarrow> False
      | Some x \<Rightarrow> use_count t temporaryList x = 1)"

text \<open>One round of the second loop: the Item \<open>temporaryList[ i ]\<close>, here \<open>p\<close>, goes
  back into the map. \<open>relink\<close> is the part after the bucket position is known.\<close>

definition relink ::
  "addr \<Rightarrow> nat \<Rightarrow> ('k, 'v) HashMap \<Rightarrow> (error + ('k, 'v) HashMap) option" where
  "relink p bucketSpot t =
     (case mBuckets t ! bucketSpot of
        None \<Rightarrow> Some (Inr (t\<lparr>mBuckets := (mBuckets t)[bucketSpot := Some p]\<rparr>))
      | Some c \<Rightarrow>
          (case find_tail (items t) c of
             None \<Rightarrow> None
           | Some (Inl e) \<Rightarrow> Some (Inl e)
           | Some (Inr l) \<Rightarrow>
               if l = p then Some (Inl AssertionFailed)
               else Some (Inr (t\<lparr>items := set_next l (Some p) (items t)\<rparr>))))"

definition reinsert_item ::
  "('k \<Rightarrow> nat) \<Rightarrow> addr list \<Rightarrow> addr \<Rightarrow> ('k, 'v) HashMap \<Rightarrow>
   (error + ('k, 'v) HashMap) option" where
  "reinsert_item hf temporaryList p t =
     (if length (items t) \<le> p then Some (Inl DanglingPointer)
      else if next_unique t temporaryList p then Some (Inl AssertionFailed)
      else if mSize t = 0 then Some (Inl ModuloByZero)
      else if length (mBuckets t) \<le> hf (fst (mKeyValuePair (items t ! p))) mod mSize t
      then Some (Inl OutOfBounds)
      else relink p (hf (fst (mKeyValuePair (items t ! p))) mod mSize t)
             (t\<lparr>items := set_next p None (items t)\<rparr>))"

fun reinsert_all ::
  "('k \<Rightarrow> nat) \<Rightarrow> addr list \<Rightarrow> addr list \<Rightarrow> ('k, 'v) HashMap \<Rightarrow>
   (error + ('k, 'v) HashMap) option" where
  "reinsert_all hf temporaryList [] t = Some (Inr t)"
| "reinsert_all hf temporaryList (p # rest) t =
     (case reinsert_item hf temporaryList p t of
        None \<Rightarrow> None
      | Some (Inl e) \<Rightarrow> Some (Inl e)
      | Some (Inr t') \<Rightarrow> reinsert_all hf temporaryList rest t')"

definition resize ::
  "('k \<Rightarrow> nat) \<Rightarrow> nat \<Rightarrow> ('k, 'v) HashMap \<Rightarrow> (error + ('k, 'v) HashMap) option" where
  "resize hf aNewSize t =
     (if aNewSize = mSize t then Some (Inr t)
      else
        (case collect_buckets (items t) (mBuckets t) [0..<mSize t] [] of
           None \<Rightarrow> None
         | Some (Inl e) \<Rightarrow> Some (Inl e)
         | Some (Inr temporaryList) \<Rightarrow>
             if length temporaryList \<noteq> mNumEntries t then Some (Inl AssertionFailed)
             else reinsert_all hf temporaryList temporaryList
                    (t\<lparr>mSize := aNewSize, mBuckets := replicate aNewSize None\<rparr>)))"

subsection \<open>insert\<close>

text \<open>The search loop of \<open>insert\<close>; it returns \<open>curr\<close>, \<open>prev\<close> and \<open>update\<close>.\<close>

partial_function (option) insert_walk ::
  "('k, 'v) Item list \<Rightarrow> 'k \<Rightarrow> addr option \<Rightarrow> addr option \<Rightarrow>
   (error + addr option \<times> addr option \<times> bool) option" where
  "insert_walk st aKey cur prev =
     (case cur of
        None \<Rightarrow> Some (Inr (None, prev, False))
      | Some c \<Rightarrow>
          if length st \<le> c then Some (Inl DanglingPointer)
          else if fst (mKeyValuePair (st ! c)) = aKey then Some (Inr (Some c, prev, True))
          else if cur = mNext (st ! c) then Some (Inl AssertionFailed)
          else insert_walk st aKey (mNext (st ! c)) cur)"

text \<open>
  The threshold test \<open>static_cast<double>( mNumEntries ) / mSize > 0.4\<close>. The quotient is
  rounded to the nearest double and compared with the double nearest to 0.4; for sizes
  below \<open>2 ^ 50\<close> that is the comparison \<open>2 * mSize < 5 * mNumEntries\<close> of the exact
  ratio with two fifths, which is what the model computes.
\<close>

definition over_threshold :: "nat \<Rightarrow> nat \<Rightarrow> bool" where
  "over_threshold numEntries capacity \<longleftrightarrow> 2 * capacity < 5 * numEntries"

text \<open>The new Item is allocated at the end of the store and linked in.\<close>

definition add_item ::
  "'k \<times> 'v \<Rightarrow> nat \<Rightarrow> addr option \<Rightarrow> ('k, 'v) HashMap \<Rightarrow> ('k, 'v) HashMap" where
  "add_item aKeyValuePair bucketSpot prev t =
     (case prev of
        None \<Rightarrow>
          t\<lparr>items := items t @ [\<lparr>mKeyValuePair = aKeyValuePair, mNext = None\<rparr>],
            mNumEntries := mNumEntries t + 1,
            mBuckets := (mBuckets t)[bucketSpot := Some (length (items t))]\<rparr>
      | Some p \<Rightarrow>
          t\<lparr>items := set_next p (Some (length (items t)))
                       (items t @ [\<lparr>mKeyValuePair = aKeyValuePair, mNext = None\<rparr>]),
            mNumEntries := mNumEntries t + 1\<rparr>)"

text \<open>The branch \<open>if( update )\<close>: the value is overwritten in place.\<close>

definition set_value ::
  "addr \<Rightarrow> 'v \<Rightarrow> ('k, 'v) Item list \<Rightarrow> ('k, 'v) Item list" where
  "set_value a v st = st[a := (st ! a)\<lparr>mKeyValuePair := (fst (mKeyValuePair (st ! a)), v)\<rparr>]"

definition insert_update ::
  "nat \<Rightarrow> 'k \<times> 'v \<Rightarrow> nat \<Rightarrow> addr option \<Rightarrow> ('k, 'v) HashMap \<Rightarrow>
   error + ('k, 'v) HashMap \<times> iterator \<times> bool" where
  "insert_update this aKeyValuePair bucketSpot cur t =
     (case cur of
        None \<Rightarrow> Inl NullDereference
      | Some c \<Rightarrow>
          Inr (t\<lparr>items := set_value c (snd aKeyValuePair) (items t)\<rparr>,
               new_iterator cur bucketSpot (Some this), True))"

text \<open>The rest of \<open>insert\<close>: a new Item is added, and the map grows when the ratio of
  entries to buckets exceeds the threshold.\<close>

definition insert_new ::
  "nat \<Rightarrow> ('k \<Rightarrow> nat) \<Rightarrow> 'k \<times> 'v \<Rightarrow> nat \<Rightarrow> addr option \<Rightarrow> ('k, 'v) HashMap \<Rightarrow>
   (error + ('k, 'v) HashMap \<times> iterator \<times> bool) option" where
  "insert_new this hf aKeyValuePair bucketSpot prev t =
     (if prev = Some (length (items t)) then Some (Inl AssertionFailed)
      else if over_threshold (mNumEntries t + 1) (mSize t) then
        (case resize hf ((mNumEntries t + 1) * 3 + 5)
                (add_item aKeyValuePair bucketSpot prev t) of
           None \<Rightarrow> None
         | Some (Inl e) \<Rightarrow> Some (Inl e)
         | Some (Inr t') \<Rightarrow>
             Some (Inr (t', new_iterator (Some (length (items t))) bucketSpot (Some this),
                        False)))
      else
        Some (Inr (add_item aKeyValuePair bucketSpot prev t,
                   new_iterator (Some (length (items t))) bucketSpot (Some this), False)))"

definition insert_hm ::
  "nat \<Rightarrow> ('k \<Rightarrow> nat) \<Rightarrow> 'k \<times> 'v \<Rightarrow> ('k, 'v) HashMap \<Rightarrow>
   (error + ('k, 'v) HashMap \<times> iterator \<times> bool) option" where
  "insert_hm this hf aKeyValuePair t =
     (if mSize t = 0 then Some (Inl ModuloByZero)
      else if length (mBuckets t) \<le> hf (fst aKeyValuePair) mod mSize t
      then Some (Inl OutOfBounds)
      else
        (case insert_walk (items t) (fst aKeyValuePair)
                (mBuckets t ! (hf (fst aKeyValuePair) mod mSize t)) None of
           None \<Rightarrow> None
         | Some (Inl e) \<Rightarrow> Some (Inl e)
         | Some (Inr (cur, prev, update)) \<Rightarrow>
             if update
             then Some (insert_update this aKeyValuePair
                          (hf (fst aKeyValuePair) mod mSize t) cur t)
             else insert_new this hf aKeyValuePair
                    (hf (fst aKeyValuePair) mod mSize t) prev t))"

text \<open>A sequence of \<open>insert\<close> calls on one map, as a caller makes them.\<close>

fun insert_all ::
  "nat \<Rightarrow> ('k \<Rightarrow> nat) \<Rightarrow> ('k \<times> 'v) list \<Rightarrow> ('k, 'v) HashMap \<Rightarrow>
   (error + ('k, 'v) HashMap) option" where
  "insert_all this hf [] t = Some (Inr t)"
| "insert_all this hf (kv # kvs) t =
     (case insert_hm this hf kv t of
        None \<Rightarrow> None
      | Some (Inl e) \<Rightarrow> Some (Inl e)
      | Some (Inr (t', it, update)) \<Rightarrow> insert_all this hf kvs t')"

subsection \<open>begin and the iterators\<close>

text \<open>The \<open>for\<close> loop over the bucket vector that looks for a non-empty bucket, from
  position \<open>i\<close> on.\<close>

function scan_buckets :: "addr option list \<Rightarrow> nat \<Rightarrow> ItemPair option" where
  "scan_buckets bs i =
     (if i < length bs
      then (if bs ! i \<noteq> None then Some (bs ! i, i) else scan_buckets bs (Suc i))
      else None)"
  by pat_completeness auto
termination
  by (relation "measure (\<lambda>(bs, i). length bs - i)") auto

declare scan_buckets.simps [simp del]

text \<open>\<open>getFirstItem()\<close>; the \<open>assert( false )\<close> after the loop is the error.\<close>

definition getFirstItem :: "('k, 'v) HashMap \<Rightarrow> error + ItemPair" where
  "getFirstItem t =
     (if empty_hm t then Inr (None, 0)
      else
        (case scan_buckets (mBuckets t) 0 of
           Some itemPair \<Rightarrow> Inr itemPair
         | None \<Rightarrow> Inl AssertionFailed))"

definition begin_hm :: "nat \<Rightarrow> ('k, 'v) HashMap \<Rightarrow> error + iterator" where
  "begin_hm this t =
     (case getFirstItem t of
        Inl e \<Rightarrow> Inl e
      | Inr itemPair \<Rightarrow> Inr (new_iterator (fst itemPair) (snd itemPair) (Some this)))"

text \<open>\<open>getNextItem( const ConstItemPair& ) const\<close>.\<close>

definition getNextItemC :: "('k, 'v) HashMap \<Rightarrow> ItemPair \<Rightarrow> error + ItemPair" where
  "getNextItemC t aItemPair =
     (case fst aItemPair of
        None \<Rightarrow> Inl NullDereference
      | Some c \<Rightarrow>
          if length (items t) \<le> c then Inl DanglingPointer
          else if mNext (items t ! c) \<noteq> None
          then Inr (mNext (items t ! c), snd aItemPair)
          else
            (case scan_buckets (mBuckets t) (snd aItemPair + 1) of
               Some itemPair \<Rightarrow> Inr itemPair
             | None \<Rightarrow> Inr (None, 0)))"

text \<open>The prefix increment of the const iterator, \<open>const_iterator::operator++\<close>. The
  parent pointer is looked up in the memory \<open>maps\<close> of the live maps; a null parent fails
  the assertion.\<close>

definition const_iterator_inc ::
  "(nat \<Rightarrow> ('k, 'v) HashMap option) \<Rightarrow> const_iterator \<Rightarrow> error + const_iterator" where
  "const_iterator_inc maps it =
     (case mParentC it of
        None \<Rightarrow> Inl AssertionFailed
      | Some p \<Rightarrow>
          (case maps p of
             None \<Rightarrow> Inl DanglingPointer
           | Some t \<Rightarrow>
               (case getNextItemC t (mCurrentItemC it) of
                  Inl e \<Rightarrow> Inl e
                | Inr itemPair \<Rightarrow> Inr (it\<lparr>mCurrentItemC := itemPair\<rparr>))))"

section \<open>The atom registry of atom\_registry.cpp\<close>

text \<open>
  Modelled from the spec: the class \<open>Atom\<close> (atom.h is not among the sources). The
  registry uses nothing of an atom but \<open>getID()\<close>, its string identifier.
\<close>

record Atom =
  getID :: string

text \<open>
  \<open>mAtoms\<close> maps an identifier to a shared pointer to an atom: the address of the atom,
  or null. The atoms live outside the registry, so the state has a store \<open>atoms\<close> of the
  atoms that are alive, by address; deleting an atom removes it from the store. \<open>cout\<close>
  is the list of the lines written to the output stream.
\<close>

record AtomRegistry =
  mAtoms :: "(string, addr option) HashMap"
  mIsCurrentlyDeallocating :: bool

record world =
  atoms :: "addr \<Rightarrow> Atom option"
  registry :: AtomRegistry
  cout :: "string list"

definition getInitialSize :: nat where
  "getInitialSize = 103"

definition AtomRegistry_init :: AtomRegistry where
  "AtomRegistry_init =
     \<lparr>mAtoms = HashMap_init getInitialSize, mIsCurrentlyDeallocating = False\<rparr>"

definition isCurrentlyDeallocating :: "AtomRegistry \<Rightarrow> bool" where
  "isCurrentlyDeallocating r = mIsCurrentlyDeallocating r"

text \<open>The address of the map object that \<open>mAtoms\<close> points to.\<close>

definition mAtoms_this :: nat where
  "mAtoms_this = 0"

text \<open>\<open>operator->\<close> of the const iterator, with its assertion.\<close>

definition derefC :: "('k, 'v) HashMap \<Rightarrow> const_iterator \<Rightarrow> error + 'k \<times> 'v" where
  "derefC t it =
     (case fst (mCurrentItemC it) of
        None \<Rightarrow> Inl AssertionFailed
      | Some c \<Rightarrow>
          if length (items t) \<le> c then Inl DanglingPointer
          else Inr (mKeyValuePair (items t ! c)))"

text \<open>
  \<open>findAtom\<close>. \<open>mAtoms\<close> is a pointer to a map that is not const, so \<open>find\<close> and \<open>end\<close>
  are the non-const ones and their results are converted to const iterators.
\<close>

definition findAtom ::
  "(string \<Rightarrow> nat) \<Rightarrow> AtomRegistry \<Rightarrow> string \<Rightarrow> (error + addr option) option" where
  "findAtom hf r aID =
     (case find_hm mAtoms_this hf aID (mAtoms r) of
        None \<Rightarrow> None
      | Some (Inl e) \<Rightarrow> Some (Inl e)
      | Some (Inr it) \<Rightarrow>
          if \<not> const_iterator_eq (to_const_iterator it) (to_const_iterator end_hm)
          then (case derefC (mAtoms r) (to_const_iterator it) of
                  Inl e \<Rightarrow> Some (Inl e)
                | Inr kv \<Rightarrow> Some (Inr (snd kv)))
          else Some (Inr None))"

definition duplicate_message :: string where
  "duplicate_message =
     ''Error: Attempting to register duplicate atom.This may cause undesired behavior.''"

text \<open>
  \<open>registerAtom\<close>. The local shared pointer \<open>atom\<close> owns the atom passed in; when the
  function returns \<open>false\<close> it is the only owner and its destruction deletes the atom,
  otherwise the map holds a copy and the atom stays alive.
\<close>

definition registerAtom ::
  "(string \<Rightarrow> nat) \<Rightarrow> addr option \<Rightarrow> world \<Rightarrow> (error + world \<times> bool) option" where
  "registerAtom hf aAtom w =
     (case aAtom of
        None \<Rightarrow> Some (Inl AssertionFailed)
      | Some a \<Rightarrow>
          (case atoms w a of
             None \<Rightarrow> Some (Inl DanglingPointer)
           | Some atom \<Rightarrow>
               (case findAtom hf (registry w) (getID atom) of
                  None \<Rightarrow> None
                | Some (Inl e) \<Rightarrow> Some (Inl e)
                | Some (Inr found) \<Rightarrow>
                    if found \<noteq> None
                    then Some (Inr (w\<lparr>cout := cout w @ [duplicate_message],
                                      atoms := (atoms w)(a := None)\<rparr>, False))
                    else
                      (case insert_hm mAtoms_this hf (getID atom, Some a)
                              (mAtoms (registry w)) of
                         None \<Rightarrow> None
                       | Some (Inl e) \<Rightarrow> Some (Inl e)
                       | Some (Inr (m, it, update)) \<Rightarrow>
                           Some (Inr (w\<lparr>registry := (registry w)\<lparr>mAtoms := m\<rparr>\<rparr>,
                                      True))))))"

section \<open>The invariant of the map\<close>

text \<open>
  \<open>chain st p as\<close>: following the successor links from the pointer \<open>p\<close> visits exactly
  the Items at the addresses \<open>as\<close>, in this order, and then reaches the null pointer.
\<close>

fun chain :: "('k, 'v) Item list \<Rightarrow> addr option \<Rightarrow> addr list \<Rightarrow> bool" where
  "chain st p [] \<longleftrightarrow> p = None"
| "chain st p (a # as) \<longleftrightarrow> p = Some a \<and> a < length st \<and> chain st (mNext (st ! a)) as"

definition key_at :: "('k, 'v) Item list \<Rightarrow> addr \<Rightarrow> 'k" where
  "key_at st a = fst (mKeyValuePair (st ! a))"

text \<open>
  \<open>linked hf t css\<close>: the bucket vector has \<open>mSize\<close> slots, at least one; \<open>css ! i\<close> is
  the chain of bucket \<open>i\<close>; and every Item sits in the bucket its key hashes to. This is
  what the second loop of \<open>resize\<close> keeps true while it puts the Items back.
\<close>

definition linked :: "('k \<Rightarrow> nat) \<Rightarrow> ('k, 'v) HashMap \<Rightarrow> addr list list \<Rightarrow> bool" where
  "linked hf t css \<longleftrightarrow>
     0 < mSize t \<and> length (mBuckets t) = mSize t \<and> length css = mSize t
     \<and> (\<forall>i < mSize t. chain (items t) (mBuckets t ! i) (css ! i))
     \<and> (\<forall>i < mSize t. \<forall>a \<in> set (css ! i). hf (key_at (items t) a) mod mSize t = i)"

text \<open>
  \<open>table_inv hf t css\<close>, the invariant of a map: it is linked, no key is stored twice,
  and \<open>mNumEntries\<close> counts the Items of the chains.
\<close>

definition table_inv :: "('k \<Rightarrow> nat) \<Rightarrow> ('k, 'v) HashMap \<Rightarrow> addr list list \<Rightarrow> bool" where
  "table_inv hf t css \<longleftrightarrow>
     linked hf t css
     \<and> inj_on (key_at (items t)) (set (concat css))
     \<and> mNumEntries t = length (concat css)"

text \<open>The key-value pairs a map stores, chain by chain.\<close>

definition contents :: "('k, 'v) HashMap \<Rightarrow> addr list list \<Rightarrow> ('k \<times> 'v) list" where
  "contents t css = map (\<lambda>a. mKeyValuePair (items t ! a)) (concat css)"

text \<open>The loops are evaluated by their unfolding equations.\<close>

declare find_walk.simps [code]
declare insert_walk.simps [code]
declare collect_chain.simps [code]
declare find_tail.simps [code]

section \<open>Failures of the operations\<close>

text \<open>No loop divides; only the bucket position of \<open>insert\<close>, \<open>find\<close> and \<open>resize\<close> does.\<close>

lemma find_walk_no_mod_aux: "find_walk st k c = Some r \<Longrightarrow> r \<noteq> Inl ModuloByZero"
  by (erule find_walk.raw_induct [rotated]) (clarsimp split: option.splits if_splits)

lemma find_walk_no_mod: "find_walk st k c \<noteq> Some (Inl ModuloByZero)"
  using find_walk_no_mod_aux [of st k c] by auto

lemma insert_walk_no_mod_aux: "insert_walk st k c p = Some r \<Longrightarrow> r \<noteq> Inl ModuloByZero"
  by (erule insert_walk.raw_induct [rotated]) (clarsimp split: option.splits if_splits)

lemma insert_walk_no_mod: "insert_walk st k c p \<noteq> Some (Inl ModuloByZero)"
  using insert_walk_no_mod_aux [of st k c p] by auto

lemma collect_chain_no_mod_aux: "collect_chain st c tmp = Some r \<Longrightarrow> r \<noteq> Inl ModuloByZero"
  by (erule collect_chain.raw_induct [rotated]) (clarsimp split: option.splits if_splits)

lemma collect_chain_no_mod: "collect_chain st c tmp \<noteq> Some (Inl ModuloByZero)"
  using collect_chain_no_mod_aux [of st c tmp] by auto

lemma find_tail_no_mod_aux: "find_tail st c = Some r \<Longrightarrow> r \<noteq> Inl ModuloByZero"
  by (erule find_tail.raw_induct [rotated]) (clarsimp split: option.splits if_splits)

lemma find_tail_no_mod: "find_tail st c \<noteq> Some (Inl ModuloByZero)"
  using find_tail_no_mod_aux [of st c] by auto

lemma collect_buckets_no_mod: "collect_buckets st bs is tmp \<noteq> Some (Inl ModuloByZero)"
proof (induction "is" arbitrary: tmp)
  case Nil
  show ?case by simp
next
  case (Cons i rest)
  show ?case
  proof (cases "collect_chain st (bs ! i) tmp")
    case None
    then show ?thesis by simp
  next
    case (Some r)
    with collect_chain_no_mod [of st "bs ! i" tmp] Cons.IH show ?thesis
      by (cases r) auto
  qed
qed

lemma relink_mSize:
  "relink p b t = Some (Inr t') \<Longrightarrow> mSize t' = mSize t"
  unfolding relink_def
  by (auto split: option.splits sum.splits if_splits)

lemma relink_no_mod:
  "relink p b t \<noteq> Some (Inl ModuloByZero)"
  unfolding relink_def
  by (auto simp: find_tail_no_mod split: option.splits sum.splits)

lemma reinsert_item_mSize:
  "reinsert_item hf tmp p t = Some (Inr t') \<Longrightarrow> mSize t' = mSize t"
  unfolding reinsert_item_def
  by (auto dest!: relink_mSize split: if_splits)

lemma reinsert_item_no_mod:
  "0 < mSize t \<Longrightarrow> reinsert_item hf tmp p t \<noteq> Some (Inl ModuloByZero)"
  unfolding reinsert_item_def
  by (simp add: relink_no_mod)

lemma reinsert_all_mSize:
  "reinsert_all hf tmp todo t = Some (Inr t') \<Longrightarrow> mSize t' = mSize t"
proof (induction todo arbitrary: t)
  case Nil
  then show ?case by simp
next
  case (Cons p rest)
  from Cons.prems obtain t1 where
    1: "reinsert_item hf tmp p t = Some (Inr t1)" and
    2: "reinsert_all hf tmp rest t1 = Some (Inr t')"
    by (auto split: option.splits sum.splits)
  from Cons.IH [OF 2] reinsert_item_mSize [OF 1] show ?case by simp
qed

lemma reinsert_all_no_mod:
  "0 < mSize t \<Longrightarrow> reinsert_all hf tmp todo t \<noteq> Some (Inl ModuloByZero)"
proof (induction todo arbitrary: t)
  case Nil
  show ?case by simp
next
  case (Cons p rest)
  show ?case
  proof (cases "reinsert_item hf tmp p t")
    case None
    then show ?thesis by simp
  next
    case (Some r)
    show ?thesis
    proof (cases r)
      case (Inl e)
      with Some reinsert_item_no_mod [OF Cons.prems, of hf tmp p] show ?thesis by auto
    next
      case (Inr t1)
      with Some reinsert_item_mSize [of hf tmp p t t1] Cons.prems have "0 < mSize t1" by simp
      from Cons.IH [OF this] Some Inr show ?thesis by simp
    qed
  qed
qed

lemma resize_no_mod:
  "0 < n \<Longrightarrow> resize hf n t \<noteq> Some (Inl ModuloByZero)"
  unfolding resize_def
  by (auto simp: collect_buckets_no_mod reinsert_all_no_mod split: option.splits sum.splits)

lemma resize_mSize:
  assumes "resize hf n t = Some (Inr t')"
  shows "mSize t' = n"
proof (cases "n = mSize t")
  case True
  with assms show ?thesis by (simp add: resize_def)
next
  case False
  with assms obtain tmp where
    "reinsert_all hf tmp tmp (t\<lparr>mSize := n, mBuckets := replicate n None\<rparr>) = Some (Inr t')"
    unfolding resize_def by (auto split: option.splits sum.splits if_splits)
  from reinsert_all_mSize [OF this] show ?thesis by simp
qed

lemma add_item_mSize: "mSize (add_item kv b p t) = mSize t"
  by (simp add: add_item_def split: option.splits)

lemma insert_hm_walk:
  assumes "mSize t \<noteq> 0" "hf (fst kv) mod mSize t < length (mBuckets t)"
    and "insert_walk (items t) (fst kv) (mBuckets t ! (hf (fst kv) mod mSize t)) None
           = Some (Inr (cur, prev, upd))"
  shows "insert_hm this hf kv t =
     (if upd then Some (insert_update this kv (hf (fst kv) mod mSize t) cur t)
      else insert_new this hf kv (hf (fst kv) mod mSize t) prev t)"
  unfolding insert_hm_def using assms by simp

lemma insert_hm_Inr_walk:
  assumes "insert_hm this hf kv t = Some (Inr r)"
  shows "mSize t \<noteq> 0 \<and> hf (fst kv) mod mSize t < length (mBuckets t)
    \<and> (\<exists>cur prev upd.
         insert_walk (items t) (fst kv) (mBuckets t ! (hf (fst kv) mod mSize t)) None
           = Some (Inr (cur, prev, upd)))"
proof -
  let ?w = "insert_walk (items t) (fst kv) (mBuckets t ! (hf (fst kv) mod mSize t)) None"
  have a: "mSize t \<noteq> 0"
    using assms unfolding insert_hm_def by (simp split: if_splits)
  have b: "hf (fst kv) mod mSize t < length (mBuckets t)"
    using assms a unfolding insert_hm_def by (simp split: if_splits)
  have "\<exists>x. ?w = Some (Inr x)"
  proof (cases ?w)
    case None
    with assms a b show ?thesis unfolding insert_hm_def by simp
  next
    case (Some w)
    with assms a b show ?thesis unfolding insert_hm_def by (cases w) auto
  qed
  then obtain x where "?w = Some (Inr x)" ..
  moreover obtain cur prev upd where "x = (cur, prev, upd)" by (metis prod_cases3)
  ultimately show ?thesis using a b by blast
qed

lemma insert_new_no_mod:
  "insert_new this hf kv b prev t \<noteq> Some (Inl ModuloByZero)"
  unfolding insert_new_def
  by (auto simp: resize_no_mod split: option.splits sum.splits)

lemma insert_new_mSize:
  assumes "insert_new this hf kv b prev t = Some (Inr (t', it, u))" "0 < mSize t"
  shows "0 < mSize t'"
proof (cases "over_threshold (mNumEntries t + 1) (mSize t)")
  case True
  with assms(1) have "resize hf ((mNumEntries t + 1) * 3 + 5) (add_item kv b prev t) = Some (Inr t')"
    unfolding insert_new_def by (simp split: if_splits option.splits sum.splits)
  from resize_mSize [OF this] show ?thesis by simp
next
  case False
  with assms(1) have "t' = add_item kv b prev t"
    unfolding insert_new_def by (simp split: if_splits)
  with assms(2) show ?thesis by (simp add: add_item_mSize)
qed

lemma insert_update_mSize:
  "insert_update this kv b cur t = Inr (t', it, u) \<Longrightarrow> mSize t' = mSize t"
  unfolding insert_update_def by (auto split: option.splits)

subsection \<open>Chains in the store\<close>

lemma chain_None [simp]: "chain st None as \<longleftrightarrow> as = []"
  by (cases as) auto

lemma chain_Some:
  "chain st (Some a) as \<longleftrightarrow>
     (\<exists>bs. as = a # bs \<and> a < length st \<and> chain st (mNext (st ! a)) bs)"
  by (cases as) auto

lemma chain_unique: "chain st p as \<Longrightarrow> chain st p bs \<Longrightarrow> as = bs"
proof (induction as arbitrary: p bs)
  case Nil
  then show ?case by simp
next
  case (Cons a as)
  then show ?case by (cases bs) auto
qed

lemma chain_bound: "chain st p as \<Longrightarrow> a \<in> set as \<Longrightarrow> a < length st"
  by (induction as arbitrary: p) auto

lemma chain_mid: "chain st p (xs @ a # ys) \<Longrightarrow> chain st (mNext (st ! a)) ys"
  by (induction xs arbitrary: p) auto

lemma chain_hd_notin:
  assumes "chain st (mNext (st ! a)) as"
  shows "a \<notin> set as"
proof
  assume "a \<in> set as"
  then obtain xs ys where as: "as = xs @ a # ys"
    by (auto simp: in_set_conv_decomp)
  with assms have "chain st (mNext (st ! a)) ys"
    using chain_mid by blast
  with assms have "as = ys" by (rule chain_unique)
  with as show False by simp
qed

lemma chain_distinct: "chain st p as \<Longrightarrow> distinct as"
  by (induction as arbitrary: p) (auto dest: chain_hd_notin)

lemma chain_no_self_loop:
  assumes "chain st (Some c) as"
  shows "mNext (st ! c) \<noteq> Some c"
proof
  assume eq: "mNext (st ! c) = Some c"
  from assms obtain bs where bs: "as = c # bs" "chain st (mNext (st ! c)) bs"
    by (auto simp: chain_Some)
  with eq have "chain st (Some c) bs" by simp
  then have "c \<in> set bs" by (cases bs) auto
  with chain_hd_notin [OF bs(2)] show False by simp
qed

lemma chain_cong:
  assumes "chain st p as"
    and "\<And>a. a \<in> set as \<Longrightarrow> a < length st' \<and> mNext (st' ! a) = mNext (st ! a)"
  shows "chain st' p as"
  using assms by (induction as arbitrary: p) auto

lemma chain_snoc:
  assumes "chain st p as" "as \<noteq> []" "n \<notin> set as" "n < length st" "mNext (st ! n) = None"
  shows "chain (set_next (last as) (Some n) st) p (as @ [n])"
  using assms
proof (induction as arbitrary: p)
  case Nil
  then show ?case by simp
next
  case (Cons a as)
  show ?case
  proof (cases "as = []")
    case True
    with Cons.prems show ?thesis
      by (auto simp: set_next_def)
  next
    case False
    from Cons.prems(1) have d: "distinct (a # as)" by (rule chain_distinct)
    with False have ne: "a \<noteq> last as" by auto
    from Cons.prems have "chain st (mNext (st ! a)) as" "n \<notin> set as" by auto
    from Cons.IH [OF this(1) False this(2) Cons.prems(4,5)]
    have "chain (set_next (last as) (Some n) st) (mNext (st ! a)) (as @ [n])" .
    with Cons.prems(1) False ne show ?thesis
      by (auto simp: set_next_def)
  qed
qed

lemma find_walk_chain:
  "chain st p as \<Longrightarrow>
   find_walk st k p = Some (Inr (List.find (\<lambda>a. key_at st a = k) as))"
proof (induction as arbitrary: p)
  case Nil
  then show ?case by (simp add: find_walk.simps)
next
  case (Cons a as)
  then show ?case
    by (subst find_walk.simps) (auto simp: key_at_def)
qed

lemma insert_walk_chain_absent:
  "chain st p as \<Longrightarrow> \<forall>a \<in> set as. key_at st a \<noteq> k \<Longrightarrow>
   insert_walk st k p prev =
     Some (Inr (None, (if as = [] then prev else Some (last as)), False))"
proof (induction as arbitrary: p prev)
  case Nil
  then show ?case by (simp add: insert_walk.simps)
next
  case (Cons a as)
  from Cons.prems(1) have "chain st (Some a) (a # as)" by simp
  then have nl: "mNext (st ! a) \<noteq> Some a" by (rule chain_no_self_loop)
  from Cons.prems have c: "chain st (mNext (st ! a)) as" and k: "\<forall>a \<in> set as. key_at st a \<noteq> k"
    by auto
  from Cons.prems nl Cons.IH [OF c k, of "Some a"] show ?case
    by (subst insert_walk.simps) (auto simp: key_at_def)
qed

lemma insert_walk_chain_present:
  "chain st p as \<Longrightarrow> List.find (\<lambda>a. key_at st a = k) as = Some a \<Longrightarrow>
   \<exists>pr. insert_walk st k p prev = Some (Inr (Some a, pr, True))"
proof (induction as arbitrary: p prev)
  case Nil
  then show ?case by simp
next
  case (Cons b as)
  from Cons.prems(1) have "chain st (Some b) (b # as)" by simp
  then have nl: "mNext (st ! b) \<noteq> Some b" by (rule chain_no_self_loop)
  show ?case
  proof (cases "key_at st b = k")
    case True
    with Cons.prems show ?thesis
      by (subst insert_walk.simps) (auto simp: key_at_def)
  next
    case False
    with Cons.prems have c: "chain st (mNext (st ! b)) as"
      and f: "List.find (\<lambda>a. key_at st a = k) as = Some a" by auto
    from Cons.IH [OF c f, of "Some b"] obtain pr where
      "insert_walk st k (mNext (st ! b)) (Some b) = Some (Inr (Some a, pr, True))" ..
    with Cons.prems(1) False nl show ?thesis
      by (subst insert_walk.simps) (auto simp: key_at_def)
  qed
qed

lemma collect_chain_chain:
  "chain st p as \<Longrightarrow> collect_chain st p tmp = Some (Inr (tmp @ as))"
proof (induction as arbitrary: p tmp)
  case Nil
  then show ?case by (simp add: collect_chain.simps)
next
  case (Cons a as)
  from Cons.prems(1) have "chain st (Some a) (a # as)" by simp
  then have nl: "mNext (st ! a) \<noteq> Some a" by (rule chain_no_self_loop)
  from Cons.prems have c: "chain st (mNext (st ! a)) as" by simp
  from Cons.prems nl Cons.IH [OF c, of "tmp @ [a]"] show ?case
    by (subst collect_chain.simps) auto
qed

lemma find_tail_chain:
  "chain st (Some c) as \<Longrightarrow> find_tail st c = Some (Inr (last as))"
proof (induction as arbitrary: c)
  case Nil
  then show ?case by simp
next
  case (Cons a as)
  from Cons.prems have ac: "a = c" and b: "c < length st" and c: "chain st (mNext (st ! c)) as"
    by auto
  from Cons.prems have nl: "mNext (st ! c) \<noteq> Some c" by (rule chain_no_self_loop)
  show ?case
  proof (cases "mNext (st ! c)")
    case None
    with c have "as = []" by simp
    with None b ac show ?thesis by (subst find_tail.simps) simp
  next
    case (Some n)
    with c have "chain st (Some n) as" by simp
    from Cons.IH [OF this] have "find_tail st n = Some (Inr (last as))" .
    moreover from Some c have "as \<noteq> []" by auto
    ultimately show ?thesis using Some b nl
      by (subst find_tail.simps) auto
  qed
qed

subsection \<open>The chains of a linked map, and find\<close>

lemma in_concat_nth: "a \<in> set (concat css) \<longleftrightarrow> (\<exists>i < length css. a \<in> set (css ! i))"
proof
  assume "a \<in> set (concat css)"
  then obtain xs where xs: "xs \<in> set css" "a \<in> set xs" by auto
  from xs(1) obtain i where "i < length css" "css ! i = xs"
    by (auto simp: in_set_conv_nth)
  with xs(2) show "\<exists>i < length css. a \<in> set (css ! i)" by auto
next
  assume "\<exists>i < length css. a \<in> set (css ! i)"
  then obtain i where i: "i < length css" "a \<in> set (css ! i)" by auto
  then have "css ! i \<in> set css" by simp
  with i(2) show "a \<in> set (concat css)" by auto
qed

lemma linked_bucket:
  assumes "linked hf t css" "a \<in> set (concat css)"
  shows "a \<in> set (css ! (hf (key_at (items t) a) mod mSize t))"
proof -
  from assms(2) obtain i where i: "i < length css" "a \<in> set (css ! i)"
    unfolding in_concat_nth by auto
  with assms(1) have "hf (key_at (items t) a) mod mSize t = i"
    by (simp add: linked_def)
  with i show ?thesis by simp
qed

lemma linked_chain:
  "linked hf t css \<Longrightarrow> i < mSize t \<Longrightarrow> chain (items t) (mBuckets t ! i) (css ! i)"
  by (simp add: linked_def)

lemma linked_bound:
  assumes "linked hf t css" "a \<in> set (concat css)"
  shows "a < length (items t)"
proof -
  from assms(2) obtain i where i: "i < length css" "a \<in> set (css ! i)"
    unfolding in_concat_nth by auto
  with assms(1) have "chain (items t) (mBuckets t ! i) (css ! i)"
    by (simp add: linked_def)
  from chain_bound [OF this i(2)] show ?thesis .
qed

lemma hash_bucket_lt: "linked hf t css \<Longrightarrow> hf k mod mSize t < mSize t"
  by (simp add: linked_def)

lemma distinct_concat_by_index:
  assumes "\<And>i. i < length css \<Longrightarrow> distinct (css ! i)"
    and "\<And>i a. i < length css \<Longrightarrow> a \<in> set (css ! i) \<Longrightarrow> f a = i + off"
  shows "distinct (concat css)"
  using assms
proof (induction css arbitrary: off)
  case Nil
  show ?case by simp
next
  case (Cons c cs)
  have d0: "distinct c" using Cons.prems(1) [of 0] by simp
  have f0: "\<And>a. a \<in> set c \<Longrightarrow> f a = off" using Cons.prems(2) [of 0] by simp
  have d: "\<And>i. i < length cs \<Longrightarrow> distinct (cs ! i)"
    using Cons.prems(1) [of "Suc _"] by simp
  have f: "\<And>i a. i < length cs \<Longrightarrow> a \<in> set (cs ! i) \<Longrightarrow> f a = i + Suc off"
    using Cons.prems(2) [of "Suc _"] by simp
  have "distinct (concat cs)" using Cons.IH [OF d f] .
  moreover have "set c \<inter> set (concat cs) = {}"
  proof (rule ccontr)
    assume "set c \<inter> set (concat cs) \<noteq> {}"
    then obtain a where a: "a \<in> set c" "a \<in> set (concat cs)" by auto
    from a(2) obtain i where "i < length cs" "a \<in> set (cs ! i)"
      unfolding in_concat_nth by auto
    with f have "f a = i + Suc off" by simp
    with f0 [OF a(1)] show False by simp
  qed
  ultimately show ?case using d0 by simp
qed

lemma linked_distinct:
  assumes "linked hf t css"
  shows "distinct (concat css)"
proof (rule distinct_concat_by_index [where f = "\<lambda>a. hf (key_at (items t) a) mod mSize t" and off = 0])
  fix i assume "i < length css"
  with assms have "chain (items t) (mBuckets t ! i) (css ! i)" by (simp add: linked_def)
  then show "distinct (css ! i)" by (rule chain_distinct)
next
  fix i a assume "i < length css" "a \<in> set (css ! i)"
  with assms show "hf (key_at (items t) a) mod mSize t = i + 0" by (simp add: linked_def)
qed

lemma find_hm_chain:
  assumes "linked hf t css"
  shows "find_hm this hf k t =
     Some (Inr (case List.find (\<lambda>a. key_at (items t) a = k) (css ! (hf k mod mSize t)) of
                  None \<Rightarrow> end_hm
                | Some c \<Rightarrow> new_iterator (Some c) (hf k mod mSize t) (Some this)))"
proof -
  from assms have b: "hf k mod mSize t < mSize t" by (rule hash_bucket_lt)
  from assms have l: "length (mBuckets t) = mSize t" by (simp add: linked_def)
  from linked_chain [OF assms b]
  have "find_walk (items t) k (mBuckets t ! (hf k mod mSize t)) =
          Some (Inr (List.find (\<lambda>a. key_at (items t) a = k) (css ! (hf k mod mSize t))))"
    by (rule find_walk_chain)
  with b l show ?thesis
    by (simp add: find_hm_def split: option.splits)
qed

lemma find_hm_absent:
  assumes "linked hf t css" "k \<notin> key_at (items t) ` set (concat css)"
  shows "find_hm this hf k t = Some (Inr end_hm)"
proof -
  from assms(1) have b: "hf k mod mSize t < length css" by (simp add: linked_def)
  have "List.find (\<lambda>a. key_at (items t) a = k) (css ! (hf k mod mSize t)) = None"
  proof (rule ccontr)
    assume "List.find (\<lambda>a. key_at (items t) a = k) (css ! (hf k mod mSize t)) \<noteq> None"
    then obtain a where "a \<in> set (css ! (hf k mod mSize t))" "key_at (items t) a = k"
      by (auto simp: find_None_iff)
    with b have "a \<in> set (concat css)" "key_at (items t) a = k"
      unfolding in_concat_nth by auto
    with assms(2) show False by blast
  qed
  then show ?thesis by (simp add: find_hm_chain [OF assms(1)])
qed

lemma find_chain_present:
  assumes "linked hf t css" "inj_on (key_at (items t)) (set (concat css))"
    "a \<in> set (concat css)" "key_at (items t) a = k"
  shows "List.find (\<lambda>a. key_at (items t) a = k) (css ! (hf k mod mSize t)) = Some a"
proof -
  from assms(1) have b: "hf k mod mSize t < length css" by (simp add: linked_def)
  from linked_bucket [OF assms(1,3)] assms(4)
  have m: "a \<in> set (css ! (hf k mod mSize t))" by simp
  then obtain c where c: "List.find (\<lambda>a. key_at (items t) a = k) (css ! (hf k mod mSize t)) = Some c"
    using assms(4) by (cases "List.find (\<lambda>a. key_at (items t) a = k) (css ! (hf k mod mSize t))")
      (auto simp: find_None_iff)
  then have "c \<in> set (css ! (hf k mod mSize t))" "key_at (items t) c = k"
    by (auto simp: find_Some_iff)
  with b have "c \<in> set (concat css)" unfolding in_concat_nth by auto
  with assms(2,3,4) \<open>key_at (items t) c = k\<close> have "c = a"
    by (auto dest: inj_onD)
  with c show ?thesis by simp
qed

lemma find_hm_present:
  assumes "linked hf t css" "inj_on (key_at (items t)) (set (concat css))"
    "a \<in> set (concat css)" "key_at (items t) a = k"
  shows "find_hm this hf k t =
           Some (Inr (new_iterator (Some a) (hf k mod mSize t) (Some this)))"
  by (simp add: find_hm_chain [OF assms(1)] find_chain_present [OF assms])

subsection \<open>Linking an Item into its bucket\<close>

lemma length_set_next [simp]: "length (set_next a n st) = length st"
  by (simp add: set_next_def)

lemma kv_set_next [simp]: "mKeyValuePair (set_next a n st ! b) = mKeyValuePair (st ! b)"
  by (cases "a < length st"; cases "a = b") (simp_all add: set_next_def list_update_beyond linorder_not_less)

lemma key_at_set_next [simp]: "key_at (set_next a n st) b = key_at st b"
  by (simp add: key_at_def)

lemma mNext_set_next_same: "a < length st \<Longrightarrow> mNext (set_next a n st ! a) = n"
  by (simp add: set_next_def)

lemma mNext_set_next_other: "b \<noteq> a \<Longrightarrow> mNext (set_next a n st ! b) = mNext (st ! b)"
  by (simp add: set_next_def)

lemma length_set_value [simp]: "length (set_value a v st) = length st"
  by (simp add: set_value_def)

lemma mNext_set_value [simp]: "mNext (set_value a v st ! b) = mNext (st ! b)"
  by (cases "a < length st"; cases "a = b") (simp_all add: set_value_def list_update_beyond linorder_not_less)

lemma key_at_set_value [simp]: "key_at (set_value a v st) b = key_at st b"
  by (cases "a < length st"; cases "a = b") (simp_all add: set_value_def key_at_def list_update_beyond linorder_not_less)

lemma kv_set_value_same:
  "a < length st \<Longrightarrow> mKeyValuePair (set_value a v st ! a) = (key_at st a, v)"
  by (simp add: set_value_def key_at_def)

lemma kv_set_value_other:
  "b \<noteq> a \<Longrightarrow> mKeyValuePair (set_value a v st ! b) = mKeyValuePair (st ! b)"
  by (simp add: set_value_def)

lemma set_concat_update:
  "b < length css \<Longrightarrow> set (concat (css[b := css ! b @ ys])) = set (concat css) \<union> set ys"
proof (induction css arbitrary: b)
  case Nil
  then show ?case by simp
next
  case (Cons c cs)
  then show ?case by (cases b) auto
qed

lemma length_concat_update:
  "b < length css \<Longrightarrow>
   length (concat (css[b := css ! b @ ys])) = length (concat css) + length ys"
proof (induction css arbitrary: b)
  case Nil
  then show ?case by simp
next
  case (Cons c cs)
  then show ?case by (cases b) auto
qed

lemma linked_agree:
  "linked hf t css \<Longrightarrow> i < mSize t \<Longrightarrow> a \<in> set (css ! i) \<Longrightarrow>
   hf (key_at (items t) a) mod mSize t = i"
  by (simp add: linked_def)

lemma linked_other_bucket:
  assumes "linked hf t css" "i < mSize t" "j < mSize t" "i \<noteq> j"
    "a \<in> set (css ! i)" "c \<in> set (css ! j)"
  shows "a \<noteq> c"
proof
  assume "a = c"
  with linked_agree [OF assms(1,2,5)] linked_agree [OF assms(1,3,6)] have "i = j" by simp
  with assms(4) show False by simp
qed

lemma link_empty_bucket:
  assumes l: "linked hf t css" and p: "p < length (items t)" "mNext (items t ! p) = None"
    and b: "b = hf (key_at (items t) p) mod mSize t" and e: "css ! b = []"
  shows "linked hf (t\<lparr>mBuckets := (mBuckets t)[b := Some p]\<rparr>) (css[b := css ! b @ [p]])"
proof -
  from l b have bl: "b < mSize t" by (simp add: linked_def)
  from l have len: "length (mBuckets t) = mSize t" "length css = mSize t" "0 < mSize t"
    by (simp_all add: linked_def)
  have ch: "chain (items t) ((mBuckets t)[b := Some p] ! i) (css[b := css ! b @ [p]] ! i)"
    if "i < mSize t" for i
  proof (cases "i = b")
    case True
    with p e len bl show ?thesis by simp
  next
    case False
    with linked_chain [OF l that] show ?thesis by simp
  qed
  have ag: "hf (key_at (items t) a) mod mSize t = i"
    if "i < mSize t" "a \<in> set (css[b := css ! b @ [p]] ! i)" for i a
  proof (cases "i = b")
    case True
    with that e len bl b show ?thesis by simp
  next
    case False
    with that l show ?thesis by (simp add: linked_def)
  qed
  from len ch ag show ?thesis by (simp add: linked_def)
qed

lemma link_tail:
  assumes l: "linked hf t css" and p: "p < length (items t)" "mNext (items t ! p) = None"
    and n: "p \<notin> set (concat css)"
    and b: "b = hf (key_at (items t) p) mod mSize t" and e: "css ! b \<noteq> []"
  shows "linked hf (t\<lparr>items := set_next (last (css ! b)) (Some p) (items t)\<rparr>)
           (css[b := css ! b @ [p]])"
proof -
  let ?l = "last (css ! b)"
  let ?st = "set_next ?l (Some p) (items t)"
  from l b have bl: "b < mSize t" by (simp add: linked_def)
  from l have len: "length (mBuckets t) = mSize t" "length css = mSize t" "0 < mSize t"
    by (simp_all add: linked_def)
  from e have lb: "?l \<in> set (css ! b)" by simp
  from n bl len have pn: "p \<notin> set (css ! b)" unfolding in_concat_nth by auto
  have ch: "chain ?st (mBuckets t ! i) (css[b := css ! b @ [p]] ! i)" if "i < mSize t" for i
  proof (cases "i = b")
    case True
    from chain_snoc [OF linked_chain [OF l bl] e pn p] True len bl show ?thesis by simp
  next
    case False
    have "chain ?st (mBuckets t ! i) (css ! i)"
    proof (rule chain_cong [OF linked_chain [OF l that]])
      fix a assume a: "a \<in> set (css ! i)"
      from linked_other_bucket [OF l that bl False a lb] have "a \<noteq> ?l" .
      moreover from chain_bound [OF linked_chain [OF l that] a] have "a < length (items t)" .
      ultimately show "a < length ?st \<and> mNext (?st ! a) = mNext (items t ! a)"
        by (simp add: mNext_set_next_other)
    qed
    with False show ?thesis by simp
  qed
  have ag: "hf (key_at ?st a) mod mSize t = i"
    if "i < mSize t" "a \<in> set (css[b := css ! b @ [p]] ! i)" for i a
  proof (cases "i = b")
    case True
    with that len bl b l show ?thesis by (auto simp: linked_def)
  next
    case False
    with that l show ?thesis by (simp add: linked_def)
  qed
  from len ch ag show ?thesis by (simp add: linked_def)
qed

subsection \<open>The two loops of resize\<close>

lemma collect_buckets_chains:
  "(\<And>i. i \<in> set is \<Longrightarrow> i < length bs \<and> chain st (bs ! i) (css ! i)) \<Longrightarrow>
   collect_buckets st bs is tmp = Some (Inr (tmp @ concat (map ((!) css) is)))"
proof (induction "is" arbitrary: tmp)
  case Nil
  show ?case by simp
next
  case (Cons i rest)
  from Cons.prems [of i] have i: "i < length bs" "chain st (bs ! i) (css ! i)" by simp_all
  from collect_chain_chain [OF i(2)]
  have c: "collect_chain st (bs ! i) tmp = Some (Inr (tmp @ css ! i))" .
  have "collect_buckets st bs rest (tmp @ css ! i) =
          Some (Inr ((tmp @ css ! i) @ concat (map ((!) css) rest)))"
    by (rule Cons.IH) (simp add: Cons.prems)
  with i(1) c show ?case by simp
qed

lemma collect_buckets_linked:
  assumes "linked hf t css"
  shows "collect_buckets (items t) (mBuckets t) [0..<mSize t] [] = Some (Inr (concat css))"
proof -
  from assms have len: "length (mBuckets t) = mSize t" "length css = mSize t"
    by (simp_all add: linked_def)
  have "collect_buckets (items t) (mBuckets t) [0..<mSize t] [] =
          Some (Inr ([] @ concat (map ((!) css) [0..<mSize t])))"
  proof (rule collect_buckets_chains)
    fix i assume "i \<in> set [0..<mSize t]"
    with assms len show "i < length (mBuckets t) \<and> chain (items t) (mBuckets t ! i) (css ! i)"
      by (simp add: linked_def)
  qed
  moreover have "map ((!) css) [0..<mSize t] = css"
    using map_nth [of css] by (simp add: len(2))
  ultimately show ?thesis by simp
qed

lemma chain_next_mem:
  assumes "chain st q as" "p \<in> set as" "mNext (st ! p) = Some x"
  shows "x \<in> set as"
proof -
  from assms(2) obtain xs ys where as: "as = xs @ p # ys"
    by (auto simp: in_set_conv_decomp)
  with assms(1) have "chain st (mNext (st ! p)) ys" using chain_mid by blast
  with assms(3) have "chain st (Some x) ys" by simp
  then have "x \<in> set ys" by (cases ys) auto
  with as show ?thesis by simp
qed

lemma linked_next_mem:
  assumes "linked hf t css" "p \<in> set (concat css)" "mNext (items t ! p) = Some x"
  shows "x \<in> set (concat css)"
proof -
  from assms(2) obtain i where i: "i < length css" "p \<in> set (css ! i)"
    unfolding in_concat_nth by auto
  with assms(1) have "chain (items t) (mBuckets t ! i) (css ! i)" by (simp add: linked_def)
  from chain_next_mem [OF this i(2) assms(3)] i(1) show ?thesis
    unfolding in_concat_nth by auto
qed

lemma concat_replicate_Nil [simp]: "concat (replicate n []) = []"
  by (induction n) auto

lemma linked_empty_buckets:
  "0 < n \<Longrightarrow> linked hf (t\<lparr>mSize := n, mBuckets := replicate n None\<rparr>) (replicate n [])"
  by (simp add: linked_def)

lemma map_kv_set_next [simp]:
  "map mKeyValuePair (set_next a n st) = map mKeyValuePair st"
  by (rule nth_equalityI) simp_all

lemma linked_clear_next:
  assumes "linked hf t css" "p \<notin> set (concat css)"
  shows "linked hf (t\<lparr>items := set_next p None (items t)\<rparr>) css"
proof -
  have "chain (set_next p None (items t)) (mBuckets t ! i) (css ! i)" if "i < mSize t" for i
  proof (rule chain_cong [OF linked_chain [OF assms(1) that]])
    fix a assume a: "a \<in> set (css ! i)"
    with that assms have "a \<noteq> p" unfolding in_concat_nth by (auto simp: linked_def)
    moreover from chain_bound [OF linked_chain [OF assms(1) that] a]
    have "a < length (items t)" .
    ultimately show "a < length (set_next p None (items t)) \<and>
        mNext (set_next p None (items t) ! a) = mNext (items t ! a)"
      by (simp add: mNext_set_next_other)
  qed
  with assms(1) show ?thesis by (simp add: linked_def)
qed

lemma use_count_ge_2:
  assumes "x \<in> set tmp" "p < length (items t)" "mNext (items t ! p) = Some x"
  shows "use_count t tmp x \<noteq> 1"
proof -
  from assms(1) have "0 < count_list tmp x" by (metis count_list_0_iff gr0I)
  moreover from assms(2,3) have "items t ! p \<in> set (filter (\<lambda>it. mNext it = Some x) (items t))"
    by simp
  then have "0 < length (filter (\<lambda>it. mNext it = Some x) (items t))"
    by (metis length_greater_0_conv empty_iff empty_set)
  ultimately show ?thesis unfolding use_count_def by linarith
qed

lemma mem_concat_nthI: "i < length css \<Longrightarrow> a \<in> set (css ! i) \<Longrightarrow> a \<in> set (concat css)"
  unfolding in_concat_nth by blast

lemma relink_linked:
  assumes l: "linked hf t css" and p: "p \<notin> set (concat css)"
    and b: "b < mSize t"
  shows "relink p b t =
     Some (Inr (if css ! b = [] then t\<lparr>mBuckets := (mBuckets t)[b := Some p]\<rparr>
                else t\<lparr>items := set_next (last (css ! b)) (Some p) (items t)\<rparr>))"
proof -
  note c = linked_chain [OF l b]
  show ?thesis
  proof (cases "css ! b")
    case Nil
    with c have "mBuckets t ! b = None" by simp
    with Nil show ?thesis by (simp add: relink_def)
  next
    case (Cons a as)
    with c have h: "mBuckets t ! b = Some a" by simp
    with c have ft: "find_tail (items t) a = Some (Inr (last (css ! b)))"
      by (simp add: find_tail_chain)
    from Cons have "last (css ! b) \<in> set (css ! b)" by simp
    moreover from l b have "b < length css" by (simp add: linked_def)
    ultimately have "last (css ! b) \<in> set (concat css)"
      by (rule mem_concat_nthI [rotated])
    with p have "last (css ! b) \<noteq> p" by auto
    with ft show ?thesis using h Cons by (simp add: relink_def)
  qed
qed

lemma reinsert_item_linked:
  assumes l: "linked hf t css" and pl: "p < length (items t)"
    and pn: "p \<notin> set (concat css)"
    and nx: "\<And>x. mNext (items t ! p) = Some x \<Longrightarrow> x \<in> set tmp"
  shows "\<exists>t'. reinsert_item hf tmp p t = Some (Inr t')
    \<and> linked hf t' (css[hf (key_at (items t) p) mod mSize t :=
                        css ! (hf (key_at (items t) p) mod mSize t) @ [p]])
    \<and> length (items t') = length (items t)
    \<and> map mKeyValuePair (items t') = map mKeyValuePair (items t)
    \<and> mNumEntries t' = mNumEntries t \<and> mSize t' = mSize t
    \<and> (\<forall>q. q \<noteq> p \<longrightarrow> q \<notin> set (concat css) \<longrightarrow>
           mNext (items t' ! q) = mNext (items t ! q))"
proof -
  let ?b = "hf (key_at (items t) p) mod mSize t"
  let ?t0 = "t\<lparr>items := set_next p None (items t)\<rparr>"
  let ?t' = "if css ! ?b = [] then ?t0\<lparr>mBuckets := (mBuckets ?t0)[?b := Some p]\<rparr>
             else ?t0\<lparr>items := set_next (last (css ! ?b)) (Some p) (items ?t0)\<rparr>"
  from l have b: "?b < mSize t" by (rule hash_bucket_lt)
  from l have len: "length (mBuckets t) = mSize t" "0 < mSize t" "length css = mSize t"
    by (simp_all add: linked_def)
  have nu: "\<not> next_unique t tmp p"
  proof (cases "mNext (items t ! p)")
    case None
    then show ?thesis by (simp add: next_unique_def)
  next
    case (Some x)
    from use_count_ge_2 [OF nx [OF Some] pl Some] Some show ?thesis
      by (simp add: next_unique_def)
  qed
  have l0: "linked hf ?t0 css" using l pn by (rule linked_clear_next)
  have b0: "?b < mSize ?t0" using b by simp
  from pl have p0: "p < length (items ?t0)" "mNext (items ?t0 ! p) = None"
    by (simp_all add: mNext_set_next_same)
  have k0: "?b = hf (key_at (items ?t0) p) mod mSize ?t0" by simp
  from relink_linked [OF l0 pn b0]
  have r: "relink p ?b ?t0 = Some (Inr ?t')" by simp
  from pl nu len b r have ri: "reinsert_item hf tmp p t = Some (Inr ?t')"
    by (simp add: reinsert_item_def key_at_def)
  have lk: "linked hf ?t' (css[?b := css ! ?b @ [p]])"
  proof (cases "css ! ?b = []")
    case True
    from link_empty_bucket [OF l0 p0 k0] True show ?thesis by simp
  next
    case False
    from link_tail [OF l0 p0 pn k0] False show ?thesis by simp
  qed
  have fr: "mNext (items ?t' ! q) = mNext (items t ! q)"
    if "q \<noteq> p" "q \<notin> set (concat css)" for q
  proof (cases "css ! ?b = []")
    case True
    with that show ?thesis by (simp add: mNext_set_next_other)
  next
    case False
    then have "last (css ! ?b) \<in> set (css ! ?b)" by simp
    moreover from b len have "?b < length css" by simp
    ultimately have "last (css ! ?b) \<in> set (concat css)"
      by (rule mem_concat_nthI [rotated])
    with that have "q \<noteq> last (css ! ?b)" by auto
    with that False show ?thesis by (simp add: mNext_set_next_other)
  qed
  have "length (items ?t') = length (items t)"
    "map mKeyValuePair (items ?t') = map mKeyValuePair (items t)"
    "mNumEntries ?t' = mNumEntries t" "mSize ?t' = mSize t"
    by simp_all
  with ri lk fr show ?thesis by blast
qed

lemma reinsert_all_linked:
  assumes "linked hf t css" "distinct todo" "set todo \<inter> set (concat css) = {}"
    and "\<And>p. p \<in> set todo \<Longrightarrow> p < length (items t)"
    and "\<And>p x. p \<in> set todo \<Longrightarrow> mNext (items t ! p) = Some x \<Longrightarrow> x \<in> set tmp"
  shows "\<exists>t' css'. reinsert_all hf tmp todo t = Some (Inr t')
    \<and> linked hf t' css'
    \<and> set (concat css') = set (concat css) \<union> set todo
    \<and> map mKeyValuePair (items t') = map mKeyValuePair (items t)
    \<and> mNumEntries t' = mNumEntries t \<and> mSize t' = mSize t"
  using assms
proof (induction todo arbitrary: t css)
  case Nil
  then show ?case by auto
next
  case (Cons p rest)
  let ?b = "hf (key_at (items t) p) mod mSize t"
  let ?css1 = "css[?b := css ! ?b @ [p]]"
  from Cons.prems(1) have bl: "?b < length css" by (simp add: linked_def)
  from Cons.prems(3) have pn: "p \<notin> set (concat css)" by auto
  from Cons.prems(4) have pl: "p < length (items t)" by simp
  have nx: "\<And>x. mNext (items t ! p) = Some x \<Longrightarrow> x \<in> set tmp"
    using Cons.prems(5) [of p] by simp
  from reinsert_item_linked [OF Cons.prems(1) pl pn nx]
  obtain t1 where t1: "reinsert_item hf tmp p t = Some (Inr t1)"
    and l1: "linked hf t1 ?css1"
    and len1: "length (items t1) = length (items t)"
    and kv1: "map mKeyValuePair (items t1) = map mKeyValuePair (items t)"
    and ne1: "mNumEntries t1 = mNumEntries t" and sz1: "mSize t1 = mSize t"
    and fr1: "\<And>q. q \<noteq> p \<Longrightarrow> q \<notin> set (concat css) \<Longrightarrow>
                mNext (items t1 ! q) = mNext (items t ! q)"
    by blast
  have s1: "set (concat ?css1) = set (concat css) \<union> {p}"
    using set_concat_update [OF bl, of "[p]"] by simp
  from Cons.prems(2) have d: "distinct rest" and pr: "p \<notin> set rest" by simp_all
  from Cons.prems(3) pr s1 have dj: "set rest \<inter> set (concat ?css1) = {}" by auto
  have b1: "q < length (items t1)" if "q \<in> set rest" for q
    using that Cons.prems(4) [of q] len1 by simp
  have n1: "x \<in> set tmp" if "q \<in> set rest" "mNext (items t1 ! q) = Some x" for q x
  proof -
    from that(1) pr have "q \<noteq> p" by auto
    moreover from that(1) Cons.prems(3) have "q \<notin> set (concat css)" by auto
    ultimately have "mNext (items t1 ! q) = mNext (items t ! q)" by (rule fr1)
    with that Cons.prems(5) [of q x] show ?thesis by simp
  qed
  have "\<exists>t' css'. reinsert_all hf tmp rest t1 = Some (Inr t')
    \<and> linked hf t' css'
    \<and> set (concat css') = set (concat ?css1) \<union> set rest
    \<and> map mKeyValuePair (items t') = map mKeyValuePair (items t1)
    \<and> mNumEntries t' = mNumEntries t1 \<and> mSize t' = mSize t1"
  proof (rule Cons.IH [OF l1 d dj])
    fix q assume "q \<in> set rest"
    then show "q < length (items t1)" by (rule b1)
  next
    fix q x assume "q \<in> set rest" "mNext (items t1 ! q) = Some x"
    then show "x \<in> set tmp" by (rule n1)
  qed
  then obtain t' css' where r: "reinsert_all hf tmp rest t1 = Some (Inr t')"
    and l': "linked hf t' css'"
    and s': "set (concat css') = set (concat ?css1) \<union> set rest"
    and kv': "map mKeyValuePair (items t') = map mKeyValuePair (items t1)"
    and ne': "mNumEntries t' = mNumEntries t1" and sz': "mSize t' = mSize t1"
    by blast
  from t1 r have "reinsert_all hf tmp (p # rest) t = Some (Inr t')" by simp
  moreover from s' s1 have "set (concat css') = set (concat css) \<union> set (p # rest)" by auto
  ultimately show ?case using l' kv' kv1 ne' ne1 sz' sz1 by auto
qed

lemma key_at_map_kv:
  "map mKeyValuePair st' = map mKeyValuePair st \<Longrightarrow> a < length st \<Longrightarrow>
   mKeyValuePair (st' ! a) = mKeyValuePair (st ! a)"
  by (metis length_map nth_map)

lemma resize_correct:
  assumes inv: "table_inv hf t css" and n: "0 < n" "n \<noteq> mSize t"
  shows "\<exists>t' css'. resize hf n t = Some (Inr t')
    \<and> table_inv hf t' css'
    \<and> set (concat css') = set (concat css)
    \<and> map mKeyValuePair (items t') = map mKeyValuePair (items t)
    \<and> mNumEntries t' = mNumEntries t \<and> mSize t' = n"
proof -
  from inv have l: "linked hf t css"
    and inj: "inj_on (key_at (items t)) (set (concat css))"
    and cnt: "mNumEntries t = length (concat css)"
    by (simp_all add: table_inv_def)
  let ?t0 = "t\<lparr>mSize := n, mBuckets := replicate n None\<rparr>"
  let ?tmp = "concat css"
  have l0: "linked hf ?t0 (replicate n [])" using n(1) by (rule linked_empty_buckets)
  have d: "distinct ?tmp" using l by (rule linked_distinct)
  have dj: "set ?tmp \<inter> set (concat (replicate n [])) = {}" by simp
  have bd: "p < length (items ?t0)" if "p \<in> set ?tmp" for p
    using linked_bound [OF l that] by simp
  have nx: "x \<in> set ?tmp" if "p \<in> set ?tmp" "mNext (items ?t0 ! p) = Some x" for p x
    using linked_next_mem [OF l that(1)] that(2) by simp
  have "\<exists>t' css'. reinsert_all hf ?tmp ?tmp ?t0 = Some (Inr t')
    \<and> linked hf t' css'
    \<and> set (concat css') = set (concat (replicate n [])) \<union> set ?tmp
    \<and> map mKeyValuePair (items t') = map mKeyValuePair (items ?t0)
    \<and> mNumEntries t' = mNumEntries ?t0 \<and> mSize t' = mSize ?t0"
  proof (rule reinsert_all_linked [OF l0 d dj])
    fix p assume "p \<in> set ?tmp"
    then show "p < length (items ?t0)" by (rule bd)
  next
    fix p x assume "p \<in> set ?tmp" "mNext (items ?t0 ! p) = Some x"
    then show "x \<in> set ?tmp" by (rule nx)
  qed
  then obtain t' css' where r: "reinsert_all hf ?tmp ?tmp ?t0 = Some (Inr t')"
    and l': "linked hf t' css'"
    and s': "set (concat css') = set (concat css)"
    and kv': "map mKeyValuePair (items t') = map mKeyValuePair (items t)"
    and ne': "mNumEntries t' = mNumEntries t" and sz': "mSize t' = n"
    by auto
  from collect_buckets_linked [OF l] cnt n(2) r
  have rs: "resize hf n t = Some (Inr t')" by (simp add: resize_def)
  have d': "distinct (concat css')" using l' by (rule linked_distinct)
  from d d' s' have "length (concat css') = length (concat css)"
    by (metis distinct_card)
  with ne' cnt have cnt': "mNumEntries t' = length (concat css')" by simp
  have "key_at (items t') a = key_at (items t) a" if "a \<in> set (concat css)" for a
    using key_at_map_kv [OF kv' linked_bound [OF l that]] by (simp add: key_at_def)
  with inj s' have inj': "inj_on (key_at (items t')) (set (concat css'))"
    by (simp add: inj_on_def)
  from l' inj' cnt' have "table_inv hf t' css'" by (simp add: table_inv_def)
  with rs s' kv' ne' sz' show ?thesis by blast
qed

subsection \<open>insert keeps the invariant\<close>

lemma linked_numEntries [simp]: "linked hf (t\<lparr>mNumEntries := m\<rparr>) css = linked hf t css"
  by (simp add: linked_def)

lemma linked_new_item:
  assumes "linked hf t css"
  shows "linked hf (t\<lparr>items := items t @ [x]\<rparr>) css"
proof -
  have ch: "chain (items t @ [x]) (mBuckets t ! i) (css ! i)" if "i < mSize t" for i
  proof (rule chain_cong [OF linked_chain [OF assms that]])
    fix a assume "a \<in> set (css ! i)"
    from chain_bound [OF linked_chain [OF assms that] this]
    show "a < length (items t @ [x]) \<and> mNext ((items t @ [x]) ! a) = mNext (items t ! a)"
      by (simp add: nth_append)
  qed
  have ag: "hf (key_at (items t @ [x]) a) mod mSize t = i"
    if "i < mSize t" "a \<in> set (css ! i)" for i a
  proof -
    from chain_bound [OF linked_chain [OF assms that(1)] that(2)]
    have "key_at (items t @ [x]) a = key_at (items t) a"
      by (simp add: key_at_def nth_append)
    with linked_agree [OF assms that] show ?thesis by simp
  qed
  from assms ch ag show ?thesis by (simp add: linked_def)
qed

lemma add_item_linked:
  assumes l: "linked hf t css" and b: "b = hf (fst kv) mod mSize t"
    and prev: "prev = (if css ! b = [] then None else Some (last (css ! b)))"
  shows "linked hf (add_item kv b prev t) (css[b := css ! b @ [length (items t)]])"
proof -
  let ?n = "length (items t)"
  let ?x = "\<lparr>mKeyValuePair = kv, mNext = None\<rparr>"
  let ?t1 = "t\<lparr>items := items t @ [?x]\<rparr>"
  have l1: "linked hf ?t1 css" using l by (rule linked_new_item)
  have p1: "?n < length (items ?t1)" "mNext (items ?t1 ! ?n) = None" by simp_all
  have b1: "b = hf (key_at (items ?t1) ?n) mod mSize ?t1" using b by (simp add: key_at_def)
  have nn: "?n \<notin> set (concat css)" using linked_bound [OF l, of ?n] by auto
  show ?thesis
  proof (cases "css ! b = []")
    case True
    with prev have "add_item kv b prev t =
        (?t1\<lparr>mBuckets := (mBuckets ?t1)[b := Some ?n]\<rparr>)\<lparr>mNumEntries := mNumEntries t + 1\<rparr>"
      by (simp add: add_item_def)
    with link_empty_bucket [OF l1 p1 b1 True] show ?thesis by simp
  next
    case False
    with prev have "add_item kv b prev t =
        (?t1\<lparr>items := set_next (last (css ! b)) (Some ?n) (items ?t1)\<rparr>)
          \<lparr>mNumEntries := mNumEntries t + 1\<rparr>"
      by (simp add: add_item_def)
    with link_tail [OF l1 p1 nn b1 False] show ?thesis by simp
  qed
qed

lemma add_item_frame:
  assumes l: "linked hf t css" and bl: "b < mSize t"
    and prev: "prev = (if css ! b = [] then None else Some (last (css ! b)))"
  shows "length (items (add_item kv b prev t)) = Suc (length (items t))"
    and "mKeyValuePair (items (add_item kv b prev t) ! length (items t)) = kv"
    and "a < length (items t) \<Longrightarrow>
         mKeyValuePair (items (add_item kv b prev t) ! a) = mKeyValuePair (items t ! a)"
    and "mNumEntries (add_item kv b prev t) = mNumEntries t + 1"
  using prev by (simp_all add: add_item_def nth_append)

lemma add_item_inv:
  assumes inv: "table_inv hf t css" and b: "b = hf (fst kv) mod mSize t"
    and fresh: "fst kv \<notin> key_at (items t) ` set (concat css)"
    and prev: "prev = (if css ! b = [] then None else Some (last (css ! b)))"
  shows "table_inv hf (add_item kv b prev t) (css[b := css ! b @ [length (items t)]])"
proof -
  let ?n = "length (items t)"
  let ?t' = "add_item kv b prev t"
  let ?css' = "css[b := css ! b @ [?n]]"
  from inv have l: "linked hf t css"
    and inj: "inj_on (key_at (items t)) (set (concat css))"
    and cnt: "mNumEntries t = length (concat css)"
    by (simp_all add: table_inv_def)
  from l b have bl: "b < mSize t" by (simp add: linked_def)
  with l have blc: "b < length css" by (simp add: linked_def)
  note fr = add_item_frame [where kv = kv, OF l bl prev]
  have l': "linked hf ?t' ?css'" using l b prev by (rule add_item_linked)
  have s': "set (concat ?css') = insert ?n (set (concat css))"
    using set_concat_update [OF blc, of "[?n]"] by simp
  have kn: "key_at (items ?t') ?n = fst kv" using fr(2) by (simp add: key_at_def)
  have ko: "key_at (items ?t') a = key_at (items t) a" if "a \<in> set (concat css)" for a
    using fr(3) [OF linked_bound [OF l that]] by (simp add: key_at_def)
  have inj': "inj_on (key_at (items ?t')) (set (concat ?css'))"
    unfolding s'
  proof (rule inj_onI)
    fix x y
    assume x: "x \<in> insert ?n (set (concat css))" and y: "y \<in> insert ?n (set (concat css))"
      and e: "key_at (items ?t') x = key_at (items ?t') y"
    show "x = y"
    proof (cases "x = ?n")
      case True
      show ?thesis
      proof (cases "y = ?n")
        case True
        with \<open>x = ?n\<close> show ?thesis by simp
      next
        case False
        with y have yc: "y \<in> set (concat css)" by simp
        from e True kn ko [OF yc] have "key_at (items t) y = fst kv" by simp
        moreover from yc have "key_at (items t) y \<in> key_at (items t) ` set (concat css)"
          by (rule imageI)
        ultimately show ?thesis using fresh by metis
      qed
    next
      case False
      with x have xc: "x \<in> set (concat css)" by simp
      show ?thesis
      proof (cases "y = ?n")
        case True
        with e kn ko [OF xc] have "key_at (items t) x = fst kv" by simp
        moreover from xc have "key_at (items t) x \<in> key_at (items t) ` set (concat css)"
          by (rule imageI)
        ultimately show ?thesis using fresh by metis
      next
        case False
        with y have yc: "y \<in> set (concat css)" by simp
        with e ko [OF xc] ko [OF yc] have "key_at (items t) x = key_at (items t) y" by simp
        with inj xc yc show ?thesis by (auto dest: inj_onD)
      qed
    qed
  qed
  have cnt': "mNumEntries ?t' = length (concat ?css')"
    using fr(4) cnt length_concat_update [OF blc, of "[?n]"] by simp
  from l' inj' cnt' show ?thesis by (simp add: table_inv_def)
qed

lemma insert_walk_absent:
  assumes l: "linked hf t css" and fresh: "k \<notin> key_at (items t) ` set (concat css)"
  shows "insert_walk (items t) k (mBuckets t ! (hf k mod mSize t)) None =
     Some (Inr (None,
       (if css ! (hf k mod mSize t) = [] then None
        else Some (last (css ! (hf k mod mSize t)))), False))"
proof -
  let ?b = "hf k mod mSize t"
  from l have bl: "?b < mSize t" by (rule hash_bucket_lt)
  with l have blc: "?b < length css" by (simp add: linked_def)
  have "\<forall>a \<in> set (css ! ?b). key_at (items t) a \<noteq> k"
  proof
    fix a assume "a \<in> set (css ! ?b)"
    with blc have "a \<in> set (concat css)" by (rule mem_concat_nthI)
    then have "key_at (items t) a \<in> key_at (items t) ` set (concat css)" by (rule imageI)
    with fresh show "key_at (items t) a \<noteq> k" by metis
  qed
  from insert_walk_chain_absent [OF linked_chain [OF l bl] this] show ?thesis .
qed

lemma over_threshold_grows:
  "over_threshold (n + 1) m \<Longrightarrow> (n + 1) * 3 + 5 \<noteq> m"
  by (simp add: over_threshold_def)

lemma insert_hm_absent:
  assumes inv: "table_inv hf t css"
    and fresh: "fst kv \<notin> key_at (items t) ` set (concat css)"
  shows "\<exists>t' css'.
      insert_hm this hf kv t =
        Some (Inr (t', new_iterator (Some (length (items t))) (hf (fst kv) mod mSize t)
                         (Some this), False))
    \<and> table_inv hf t' css'
    \<and> set (concat css') = insert (length (items t)) (set (concat css))
    \<and> length (items t') = Suc (length (items t))
    \<and> mKeyValuePair (items t' ! length (items t)) = kv
    \<and> (\<forall>a < length (items t). mKeyValuePair (items t' ! a) = mKeyValuePair (items t ! a))
    \<and> mNumEntries t' = mNumEntries t + 1
    \<and> mSize t' = (if over_threshold (mNumEntries t + 1) (mSize t)
                  then (mNumEntries t + 1) * 3 + 5 else mSize t)"
proof -
  let ?b = "hf (fst kv) mod mSize t"
  let ?n = "length (items t)"
  let ?prev = "if css ! ?b = [] then None else Some (last (css ! ?b))"
  let ?t1 = "add_item kv ?b ?prev t"
  let ?css1 = "css[?b := css ! ?b @ [?n]]"
  let ?it = "new_iterator (Some ?n) ?b (Some this)"
  from inv have l: "linked hf t css" by (simp add: table_inv_def)
  from l have bl: "?b < mSize t" by (rule hash_bucket_lt)
  from l have len: "length (mBuckets t) = mSize t" "length css = mSize t" "mSize t \<noteq> 0"
    by (simp_all add: linked_def)
  from bl len have bb: "?b < length (mBuckets t)" by simp
  from bl len have blc: "?b < length css" by simp
  note w = insert_walk_absent [OF l fresh]
  have ih: "insert_hm this hf kv t = insert_new this hf kv ?b ?prev t"
    using insert_hm_walk [where hf = hf and kv = kv and t = t, OF len(3) bb w] by simp
  have pn: "?prev \<noteq> Some ?n"
  proof (cases "css ! ?b = []")
    case True
    then show ?thesis by simp
  next
    case False
    then have "last (css ! ?b) \<in> set (css ! ?b)" by simp
    with blc have "last (css ! ?b) \<in> set (concat css)" by (rule mem_concat_nthI)
    from linked_bound [OF l this] False show ?thesis by simp
  qed
  have inv1: "table_inv hf ?t1 ?css1"
    using inv refl fresh refl by (rule add_item_inv)
  note fr = add_item_frame [where kv = kv, OF l bl refl]
  have s1: "set (concat ?css1) = insert ?n (set (concat css))"
    using set_concat_update [OF blc, of "[?n]"] by simp
  have sz1: "mSize ?t1 = mSize t" by (rule add_item_mSize)
  show ?thesis
  proof (cases "over_threshold (mNumEntries t + 1) (mSize t)")
    case False
    with ih pn have "insert_hm this hf kv t = Some (Inr (?t1, ?it, False))"
      by (simp add: insert_new_def)
    with inv1 s1 fr sz1 False show ?thesis by auto
  next
    case True
    let ?m = "(mNumEntries t + 1) * 3 + 5"
    have m: "0 < ?m" "?m \<noteq> mSize ?t1"
      using over_threshold_grows [OF True] by (simp_all add: sz1)
    from resize_correct [OF inv1 m]
    obtain t' css' where r: "resize hf ?m ?t1 = Some (Inr t')"
      and inv': "table_inv hf t' css'"
      and s': "set (concat css') = set (concat ?css1)"
      and kv': "map mKeyValuePair (items t') = map mKeyValuePair (items ?t1)"
      and ne': "mNumEntries t' = mNumEntries ?t1" and sz': "mSize t' = ?m"
      by blast
    from ih pn True r have ins: "insert_hm this hf kv t = Some (Inr (t', ?it, False))"
      by (simp add: insert_new_def)
    from kv' have len': "length (items t') = length (items ?t1)"
      by (metis length_map)
    have k': "mKeyValuePair (items t' ! a) = mKeyValuePair (items ?t1 ! a)"
      if "a < length (items ?t1)" for a
      using kv' that by (rule key_at_map_kv)
    have a1: "mKeyValuePair (items t' ! ?n) = kv"
      using k' [of ?n] fr(1,2) by simp
    have a2: "\<forall>a < ?n. mKeyValuePair (items t' ! a) = mKeyValuePair (items t ! a)"
      using k' fr(1,3) by simp
    from ins inv' s' s1 len' fr(1,4) a1 a2 ne' sz' True show ?thesis
      by auto
  qed
qed

lemma set_value_inv:
  assumes inv: "table_inv hf t css"
  shows "table_inv hf (t\<lparr>items := set_value a v (items t)\<rparr>) css"
proof -
  from inv have l: "linked hf t css"
    and inj: "inj_on (key_at (items t)) (set (concat css))"
    and cnt: "mNumEntries t = length (concat css)"
    by (simp_all add: table_inv_def)
  have ch: "chain (set_value a v (items t)) (mBuckets t ! i) (css ! i)" if "i < mSize t" for i
  proof (rule chain_cong [OF linked_chain [OF l that]])
    fix c assume "c \<in> set (css ! i)"
    from chain_bound [OF linked_chain [OF l that] this]
    show "c < length (set_value a v (items t)) \<and>
          mNext (set_value a v (items t) ! c) = mNext (items t ! c)"
      by simp
  qed
  with l have "linked hf (t\<lparr>items := set_value a v (items t)\<rparr>) css"
    by (simp add: linked_def)
  moreover have "key_at (set_value a v (items t)) = key_at (items t)"
    by (rule ext) simp
  ultimately show ?thesis using inj cnt by (simp add: table_inv_def)
qed

lemma insert_hm_present:
  assumes inv: "table_inv hf t css" and a: "a \<in> set (concat css)"
    and k: "key_at (items t) a = fst kv"
  shows "insert_hm this hf kv t =
      Some (Inr (t\<lparr>items := set_value a (snd kv) (items t)\<rparr>,
                 new_iterator (Some a) (hf (fst kv) mod mSize t) (Some this), True))"
proof -
  let ?b = "hf (fst kv) mod mSize t"
  from inv have l: "linked hf t css"
    and inj: "inj_on (key_at (items t)) (set (concat css))"
    by (simp_all add: table_inv_def)
  from l have bl: "?b < mSize t" by (rule hash_bucket_lt)
  from l have len: "length (mBuckets t) = mSize t" "mSize t \<noteq> 0"
    by (simp_all add: linked_def)
  from bl len have bb: "?b < length (mBuckets t)" by simp
  from insert_walk_chain_present [OF linked_chain [OF l bl] find_chain_present [OF l inj a k]]
  obtain pr where
    w: "insert_walk (items t) (fst kv) (mBuckets t ! ?b) None = Some (Inr (Some a, pr, True))"
    by blast
  from insert_hm_walk [where hf = hf and kv = kv and t = t, OF len(2) bb w]
  show ?thesis by (simp add: insert_update_def)
qed

lemma HashMap_init_inv:
  "0 < n \<Longrightarrow> table_inv hf (HashMap_init n) (replicate n [])"
  by (simp add: table_inv_def linked_def HashMap_init_def)

subsection \<open>The stored pairs\<close>

declare set_concat [simp del]

lemma keys_contents:
  "fst ` set (contents t css) = key_at (items t) ` set (concat css)"
  by (simp add: contents_def key_at_def image_image)

lemma set_contents:
  "set (contents t css) = (\<lambda>a. mKeyValuePair (items t ! a)) ` set (concat css)"
  by (simp add: contents_def)

lemma find_hm_contents:
  assumes inv: "table_inv hf t css" and m: "(k, v) \<in> set (contents t css)"
  shows "\<exists>a. a \<in> set (concat css) \<and> mKeyValuePair (items t ! a) = (k, v)
    \<and> find_hm this hf k t = Some (Inr (new_iterator (Some a) (hf k mod mSize t) (Some this)))
    \<and> deref t (new_iterator (Some a) (hf k mod mSize t) (Some this)) = Inr (k, v)
    \<and> \<not> iterator_eq (new_iterator (Some a) (hf k mod mSize t) (Some this)) end_hm"
proof -
  from inv have l: "linked hf t css"
    and inj: "inj_on (key_at (items t)) (set (concat css))"
    by (simp_all add: table_inv_def)
  from m obtain a where a: "a \<in> set (concat css)" "mKeyValuePair (items t ! a) = (k, v)"
    unfolding set_contents by auto
  then have k: "key_at (items t) a = k" by (simp add: key_at_def)
  note f = find_hm_present [OF l inj a(1) k, of this]
  from linked_bound [OF l a(1)] a(2)
  have d: "deref t (new_iterator (Some a) (hf k mod mSize t) (Some this)) = Inr (k, v)"
    by (simp add: deref_def new_iterator_def)
  have "\<not> iterator_eq (new_iterator (Some a) (hf k mod mSize t) (Some this)) end_hm"
    by (simp add: iterator_eq_def new_iterator_def end_hm_def)
  with a f d show ?thesis by blast
qed

lemma find_hm_not_contents:
  assumes inv: "table_inv hf t css" and m: "k \<notin> fst ` set (contents t css)"
  shows "find_hm this hf k t = Some (Inr end_hm)"
proof -
  from inv have l: "linked hf t css" by (simp add: table_inv_def)
  from m have "k \<notin> key_at (items t) ` set (concat css)" unfolding keys_contents .
  with l show ?thesis by (rule find_hm_absent)
qed

lemma insert_hm_new_contents:
  assumes inv: "table_inv hf t css" and fresh: "fst kv \<notin> fst ` set (contents t css)"
  shows "\<exists>t' css'.
      insert_hm this hf kv t =
        Some (Inr (t', new_iterator (Some (length (items t))) (hf (fst kv) mod mSize t)
                         (Some this), False))
    \<and> table_inv hf t' css'
    \<and> set (contents t' css') = insert kv (set (contents t css))
    \<and> length (items t) \<in> set (concat css')
    \<and> mKeyValuePair (items t' ! length (items t)) = kv
    \<and> mNumEntries t' = mNumEntries t + 1
    \<and> mSize t' = (if over_threshold (mNumEntries t + 1) (mSize t)
                  then (mNumEntries t + 1) * 3 + 5 else mSize t)"
proof -
  from inv have l: "linked hf t css" by (simp add: table_inv_def)
  from fresh have f: "fst kv \<notin> key_at (items t) ` set (concat css)"
    unfolding keys_contents .
  from insert_hm_absent [OF inv f, of this]
  obtain t' css' where
    ins: "insert_hm this hf kv t =
        Some (Inr (t', new_iterator (Some (length (items t))) (hf (fst kv) mod mSize t)
                         (Some this), False))"
    and inv': "table_inv hf t' css'"
    and s': "set (concat css') = insert (length (items t)) (set (concat css))"
    and kn: "mKeyValuePair (items t' ! length (items t)) = kv"
    and ko: "\<forall>a < length (items t). mKeyValuePair (items t' ! a) = mKeyValuePair (items t ! a)"
    and ne: "mNumEntries t' = mNumEntries t + 1"
    and sz: "mSize t' = (if over_threshold (mNumEntries t + 1) (mSize t)
                  then (mNumEntries t + 1) * 3 + 5 else mSize t)"
    by blast
  have "(\<lambda>a. mKeyValuePair (items t' ! a)) ` set (concat css) =
        (\<lambda>a. mKeyValuePair (items t ! a)) ` set (concat css)"
  proof (rule image_cong [OF refl])
    fix a assume "a \<in> set (concat css)"
    from linked_bound [OF l this] ko
    show "mKeyValuePair (items t' ! a) = mKeyValuePair (items t ! a)" by simp
  qed
  with s' kn have c': "set (contents t' css') = insert kv (set (contents t css))"
    unfolding set_contents by simp
  from s' have "length (items t) \<in> set (concat css')" by simp
  with ins inv' c' kn ne sz show ?thesis by blast
qed

lemma insert_all_inv:
  assumes "table_inv hf t css" "distinct (map fst kvs)"
    "fst ` set kvs \<inter> fst ` set (contents t css) = {}"
  shows "\<exists>t' css'. insert_all this hf kvs t = Some (Inr t')
    \<and> table_inv hf t' css'
    \<and> set (contents t' css') = set (contents t css) \<union> set kvs
    \<and> mNumEntries t' = mNumEntries t + length kvs
    \<and> (5 * (mNumEntries t + length kvs) \<le> 2 * mSize t \<longrightarrow> mSize t' = mSize t)"
  using assms
proof (induction kvs arbitrary: t css)
  case Nil
  then show ?case by auto
next
  case (Cons kv kvs)
  from Cons.prems(3) have fresh: "fst kv \<notin> fst ` set (contents t css)" by auto
  from insert_hm_new_contents [OF Cons.prems(1) fresh, of this]
  obtain t1 css1 it where
    ins: "insert_hm this hf kv t = Some (Inr (t1, it, False))"
    and inv1: "table_inv hf t1 css1"
    and c1: "set (contents t1 css1) = insert kv (set (contents t css))"
    and ne1: "mNumEntries t1 = mNumEntries t + 1"
    and sz1: "mSize t1 = (if over_threshold (mNumEntries t + 1) (mSize t)
                  then (mNumEntries t + 1) * 3 + 5 else mSize t)"
    by blast
  from Cons.prems(2) have d: "distinct (map fst kvs)" and kn: "fst kv \<notin> fst ` set kvs"
    by simp_all
  from Cons.prems(3) kn c1 have dj: "fst ` set kvs \<inter> fst ` set (contents t1 css1) = {}"
    by auto
  from Cons.IH [OF inv1 d dj]
  obtain t' css' where r: "insert_all this hf kvs t1 = Some (Inr t')"
    and inv': "table_inv hf t' css'"
    and c': "set (contents t' css') = set (contents t1 css1) \<union> set kvs"
    and ne': "mNumEntries t' = mNumEntries t1 + length kvs"
    and sz': "5 * (mNumEntries t1 + length kvs) \<le> 2 * mSize t1 \<longrightarrow> mSize t' = mSize t1"
    by blast
  from ins r have a: "insert_all this hf (kv # kvs) t = Some (Inr t')" by simp
  from c' c1 have b: "set (contents t' css') = set (contents t css) \<union> set (kv # kvs)" by auto
  from ne' ne1 have c: "mNumEntries t' = mNumEntries t + length (kv # kvs)" by simp
  have e: "mSize t' = mSize t" if "5 * (mNumEntries t + length (kv # kvs)) \<le> 2 * mSize t"
  proof -
    from that have "\<not> over_threshold (mNumEntries t + 1) (mSize t)"
      by (simp add: over_threshold_def)
    with sz1 have "mSize t1 = mSize t" by simp
    with that sz' ne1 show ?thesis by simp
  qed
  from a inv' b c e show ?case by blast
qed

lemma contents_init [simp]: "contents (HashMap_init n) (replicate n []) = []"
  by (simp add: contents_def)

text \<open>The invariant in a form that can be computed on a concrete map.\<close>

lemma table_inv_code:
  "table_inv hf t css \<longleftrightarrow>
     0 < mSize t \<and> length (mBuckets t) = mSize t \<and> length css = mSize t
     \<and> list_all (\<lambda>i. chain (items t) (mBuckets t ! i) (css ! i)
            \<and> list_all (\<lambda>a. hf (key_at (items t) a) mod mSize t = i) (css ! i))
          [0..<mSize t]
     \<and> distinct (map (key_at (items t)) (concat css))
     \<and> mNumEntries t = length (concat css)"
proof -
  have a: "linked hf t css \<longleftrightarrow>
     0 < mSize t \<and> length (mBuckets t) = mSize t \<and> length css = mSize t
     \<and> list_all (\<lambda>i. chain (items t) (mBuckets t ! i) (css ! i)
            \<and> list_all (\<lambda>a. hf (key_at (items t) a) mod mSize t = i) (css ! i))
          [0..<mSize t]"
    by (auto simp: linked_def list_all_iff)
  have b: "inj_on (key_at (items t)) (set (concat css)) \<longleftrightarrow>
           distinct (map (key_at (items t)) (concat css))" if "linked hf t css"
    using linked_distinct [OF that] by (simp add: distinct_map)
  show ?thesis
  proof (cases "linked hf t css")
    case True
    with b [OF True] a show ?thesis unfolding table_inv_def by blast
  next
    case False
    with a show ?thesis unfolding table_inv_def by blast
  qed
qed

subsection \<open>Sequences of inserts and the threshold\<close>

lemma insert_all_append:
  "insert_all this hf (xs @ ys) t =
     (case insert_all this hf xs t of
        None \<Rightarrow> None
      | Some (Inl e) \<Rightarrow> Some (Inl e)
      | Some (Inr t') \<Rightarrow> insert_all this hf ys t')"
proof (induction xs arbitrary: t)
  case Nil
  show ?case by simp
next
  case (Cons kv xs)
  show ?case
  proof (cases "insert_hm this hf kv t")
    case None
    then show ?thesis by simp
  next
    case (Some r)
    show ?thesis
    proof (cases r)
      case (Inl e)
      with Some show ?thesis by simp
    next
      case (Inr x)
      obtain t1 it u where "x = (t1, it, u)" by (metis prod_cases3)
      with Some Inr Cons.IH [of t1] show ?thesis by simp
    qed
  qed
qed

lemma over_threshold_real:
  "0 < m \<Longrightarrow> over_threshold n m \<longleftrightarrow> 0.4 < real n / real m"
proof -
  assume m: "0 < m"
  have "0.4 < real n / real m \<longleftrightarrow> 0.4 * real m < real n"
    using m by (simp add: pos_less_divide_eq)
  also have "\<dots> \<longleftrightarrow> 2 * real m < 5 * real n" by (simp add: mult.commute)
  also have "\<dots> \<longleftrightarrow> real (2 * m) < real (5 * n)" by simp
  also have "\<dots> \<longleftrightarrow> 2 * m < 5 * n" by (simp only: of_nat_less_iff)
  finally show ?thesis by (simp add: over_threshold_def)
qed

lemma load_factor_real:
  "0 < m \<Longrightarrow> \<not> over_threshold n m \<Longrightarrow> real n / real m \<le> 0.4"
  by (simp add: over_threshold_real)

lemma linked_code:
  "linked hf t css \<longleftrightarrow>
     0 < mSize t \<and> length (mBuckets t) = mSize t \<and> length css = mSize t
     \<and> list_all (\<lambda>i. chain (items t) (mBuckets t ! i) (css ! i)
            \<and> list_all (\<lambda>a. hf (key_at (items t) a) mod mSize t = i) (css ! i))
          [0..<mSize t]"
  by (auto simp: linked_def list_all_iff)

lemma chain_last_next: "chain st q (as @ [p]) \<Longrightarrow> mNext (st ! p) = None"
  using chain_mid [of st q as p "[]"] by simp

lemma linked_tail_next:
  assumes "linked hf t (css[b := css ! b @ [p]])" "b < mSize t"
  shows "mNext (items t ! p) = None"
proof -
  from assms have "length css = mSize t" by (simp add: linked_def)
  with assms(2) have "css[b := css ! b @ [p]] ! b = css ! b @ [p]" by simp
  with linked_chain [OF assms] have "chain (items t) (mBuckets t ! b) (css ! b @ [p])"
    by simp
  then show ?thesis by (rule chain_last_next)
qed

subsection \<open>The scan for a non-empty bucket\<close>

lemma scan_buckets_find:
  "scan_buckets bs i =
     (case List.find (\<lambda>j. bs ! j \<noteq> None) [i..<length bs] of
        None \<Rightarrow> None
      | Some j \<Rightarrow> Some (bs ! j, j))"
proof (induction bs i rule: scan_buckets.induct)
  case (1 bs i)
  show ?case
  proof (cases "i < length bs")
    case False
    then show ?thesis by (subst scan_buckets.simps) simp
  next
    case True
    then have u: "[i..<length bs] = i # [Suc i..<length bs]" by (rule upt_conv_Cons)
    show ?thesis
    proof (cases "bs ! i \<noteq> None")
      case nn: True
      with True u show ?thesis by (subst scan_buckets.simps) simp
    next
      case False
      with True u 1 [OF True] show ?thesis by (subst scan_buckets.simps) simp
    qed
  qed
qed

lemma find_upt_first:
  assumes "List.find P [i..<n] = Some j"
  shows "i \<le> j \<and> j < n \<and> P j \<and> (\<forall>m. i \<le> m \<and> m < j \<longrightarrow> \<not> P m)"
proof -
  from assms obtain q where q: "q < length [i..<n]" "P ([i..<n] ! q)" "j = [i..<n] ! q"
    "\<forall>r < q. \<not> P ([i..<n] ! r)"
    unfolding find_Some_iff by blast
  from q(1) have qn: "q < n - i" by simp
  with q(3) have j: "j = i + q" by simp
  have "\<not> P m" if "i \<le> m" "m < j" for m
  proof -
    from that j have "m - i < q" by simp
    with q(4) have "\<not> P ([i..<n] ! (m - i))" by blast
    moreover from that j qn have "[i..<n] ! (m - i) = m" by simp
    ultimately show ?thesis by simp
  qed
  with q(2) j qn show ?thesis by auto
qed

lemma find_upt_none:
  "List.find P [i..<n] = None \<longleftrightarrow> (\<forall>m. i \<le> m \<and> m < n \<longrightarrow> \<not> P m)"
  by (auto simp: find_None_iff)

subsection \<open>The increments of the iterators\<close>

lemma mCurrentItem_end: "mCurrentItem end_hm = (None, 0)"
  by (simp add: end_hm_def new_iterator_def)

lemma getNextItemC_successor:
  "fst ip = Some c \<Longrightarrow> c < length (items t) \<Longrightarrow> mNext (items t ! c) = Some s \<Longrightarrow>
   getNextItemC t ip = Inr (Some s, snd ip)"
  by (simp add: getNextItemC_def)

lemma getNextItemC_next_bucket:
  assumes "fst ip = Some c" "c < length (items t)" "mNext (items t ! c) = None"
    and "snd ip < j" "j < length (mBuckets t)" "mBuckets t ! j \<noteq> None"
    and "\<forall>m. snd ip < m \<and> m < j \<longrightarrow> mBuckets t ! m = None"
  shows "getNextItemC t ip = Inr (mBuckets t ! j, j)"
proof -
  let ?P = "\<lambda>j. mBuckets t ! j \<noteq> None"
  let ?xs = "[Suc (snd ip)..<length (mBuckets t)]"
  from assms(4) have "Suc (snd ip) \<le> j" by simp
  with assms(5,6) have "\<not> (\<forall>m. Suc (snd ip) \<le> m \<and> m < length (mBuckets t) \<longrightarrow> \<not> ?P m)"
    by blast
  then have "List.find ?P ?xs \<noteq> None"
    unfolding find_upt_none .
  then obtain q where q: "List.find ?P ?xs = Some q" by blast
  from find_upt_first [OF q]
  have q1: "Suc (snd ip) \<le> q" "q < length (mBuckets t)" "?P q"
    and q2: "\<forall>m. Suc (snd ip) \<le> m \<and> m < q \<longrightarrow> \<not> ?P m"
    by blast+
  have "q = j"
  proof (rule ccontr)
    assume "q \<noteq> j"
    then consider "q < j" | "j < q" by linarith
    then show False
    proof cases
      case 1
      with q1(1) assms(7) have "mBuckets t ! q = None" by simp
      with q1(3) show False by simp
    next
      case 2
      with assms(4) q2 have "\<not> ?P j" by simp
      with assms(6) show False by simp
    qed
  qed
  with q assms(1,2,3) show ?thesis
    by (simp add: getNextItemC_def scan_buckets_find)
qed

lemma getNextItemC_end:
  assumes "fst ip = Some c" "c < length (items t)" "mNext (items t ! c) = None"
    and "\<forall>j. snd ip < j \<and> j < length (mBuckets t) \<longrightarrow> mBuckets t ! j = None"
  shows "getNextItemC t ip = Inr (mCurrentItem end_hm)"
proof -
  from assms(4)
  have "List.find (\<lambda>j. mBuckets t ! j \<noteq> None) [Suc (snd ip)..<length (mBuckets t)] = None"
    by (simp add: find_upt_none)
  with assms(1,2,3) show ?thesis
    by (simp add: getNextItemC_def scan_buckets_find mCurrentItem_end)
qed

subsection \<open>The atom registry\<close>

lemma findAtom_absent:
  assumes "table_inv hf (mAtoms r) css" "k \<notin> fst ` set (contents (mAtoms r) css)"
  shows "findAtom hf r k = Some (Inr None)"
  using find_hm_not_contents [OF assms, of mAtoms_this]
  by (simp add: findAtom_def const_iterator_eq_def)

lemma findAtom_present:
  assumes "table_inv hf (mAtoms r) css" "(k, v) \<in> set (contents (mAtoms r) css)"
  shows "findAtom hf r k = Some (Inr v)"
proof -
  from find_hm_contents [OF assms, of mAtoms_this]
  obtain a where a: "a \<in> set (concat css)" "mKeyValuePair (items (mAtoms r) ! a) = (k, v)"
    and f: "find_hm mAtoms_this hf k (mAtoms r) =
      Some (Inr (new_iterator (Some a) (hf k mod mSize (mAtoms r)) (Some mAtoms_this)))"
    by blast
  from assms(1) have "linked hf (mAtoms r) css" by (simp add: table_inv_def)
  from linked_bound [OF this a(1)] have al: "a < length (items (mAtoms r))" .
  from f a(2) al show ?thesis
    by (simp add: findAtom_def const_iterator_eq_def to_const_iterator_def new_iterator_def
        end_hm_def derefC_def)
qed

section \<open>The capacity and the bucket position\<close>

text \<open>
  C10. The constructor stores whatever capacity it is given, zero included. On a map of
  capacity zero \<open>insert\<close> and \<open>find\<close> take the hash modulo zero. On a map of capacity at
  least one neither does, in \<open>find\<close>, in \<open>insert\<close> or in the \<open>resize\<close> that \<open>insert\<close> may
  call, and the capacity is still at least one after the insert.
\<close>

theorem bucket_index_defined_iff_capacity_positive:
  "mSize (HashMap_init n :: ('k, 'v) HashMap) = n
   \<and> insert_hm this hf kv (HashMap_init 0 :: ('k, 'v) HashMap) = Some (Inl ModuloByZero)
   \<and> find_hm this hf k (HashMap_init 0 :: ('k, 'v) HashMap) = Some (Inl ModuloByZero)
   \<and> (0 < mSize (t :: ('k, 'v) HashMap) \<longrightarrow>
        find_hm this hf k t \<noteq> Some (Inl ModuloByZero)
      \<and> insert_hm this hf kv t \<noteq> Some (Inl ModuloByZero)
      \<and> (\<forall>t' it u. insert_hm this hf kv t = Some (Inr (t', it, u)) \<longrightarrow> 0 < mSize t'))"
proof -
  have a: "mSize (HashMap_init n :: ('k, 'v) HashMap) = n"
    by (simp add: HashMap_init_def)
  have b: "insert_hm this hf kv (HashMap_init 0 :: ('k, 'v) HashMap) = Some (Inl ModuloByZero)"
    by (simp add: insert_hm_def HashMap_init_def)
  have c: "find_hm this hf k (HashMap_init 0 :: ('k, 'v) HashMap) = Some (Inl ModuloByZero)"
    by (simp add: find_hm_def HashMap_init_def)
  have d: "find_hm this hf k t \<noteq> Some (Inl ModuloByZero)" if "0 < mSize t"
    using that find_walk_no_mod [of "items t" k]
    by (auto simp: find_hm_def split: option.splits sum.splits)
  have e: "insert_hm this hf kv t \<noteq> Some (Inl ModuloByZero)" if "0 < mSize t"
  proof (cases "hf (fst kv) mod mSize t < length (mBuckets t)")
    case False
    with that show ?thesis by (simp add: insert_hm_def)
  next
    case True
    let ?w = "insert_walk (items t) (fst kv) (mBuckets t ! (hf (fst kv) mod mSize t)) None"
    show ?thesis
    proof (cases ?w)
      case None
      with that True show ?thesis by (simp add: insert_hm_def)
    next
      case (Some w)
      show ?thesis
      proof (cases w)
        case (Inl x)
        with Some insert_walk_no_mod [of "items t" "fst kv"] have "x \<noteq> ModuloByZero" by auto
        with that True Some Inl show ?thesis by (simp add: insert_hm_def)
      next
        case (Inr x)
        obtain cur prev upd where x: "x = (cur, prev, upd)" by (metis prod_cases3)
        from that have nz: "mSize t \<noteq> 0" by simp
        show ?thesis
          unfolding insert_hm_walk [where hf = hf and kv = kv and t = t, OF nz True Some [unfolded Inr x]]
          by (simp add: insert_new_no_mod insert_update_def split: option.splits)
      qed
    qed
  qed
  have f: "0 < mSize t'" if "0 < mSize t" "insert_hm this hf kv t = Some (Inr (t', it, u))" for t' it u
  proof -
    from insert_hm_Inr_walk [OF that(2)] obtain cur prev upd where
      b: "hf (fst kv) mod mSize t < length (mBuckets t)" and
      w: "insert_walk (items t) (fst kv) (mBuckets t ! (hf (fst kv) mod mSize t)) None
            = Some (Inr (cur, prev, upd))"
      by blast
    from that have nz: "mSize t \<noteq> 0" by simp
    note eq = that(2) [unfolded insert_hm_walk [where hf = hf and kv = kv and t = t, OF nz b w]]
    show ?thesis
    proof (cases upd)
      case True
      with eq have "insert_update this kv (hf (fst kv) mod mSize t) cur t = Inr (t', it, u)"
        by simp
      from insert_update_mSize [OF this] that(1) show ?thesis by simp
    next
      case False
      with eq have "insert_new this hf kv (hf (fst kv) mod mSize t) prev t = Some (Inr (t', it, u))"
        by simp
      from insert_new_mSize [OF this that(1)] show ?thesis .
    qed
  qed
  from a b c d e f show ?thesis by blast
qed


theorem bucket_index_defined_iff_capacity_positive_witness:
  "0 < mSize (HashMap_init 1 :: (nat, nat) HashMap)
   \<and> insert_hm 0 id (5 :: nat, 7 :: nat) (HashMap_init 1) =
       Some (Inr (\<lparr>items = [\<lparr>mKeyValuePair = (5, 7), mNext = None\<rparr>],
                    mBuckets = [None, None, None, None, None, Some 0, None, None],
                    mSize = 8, mNumEntries = 1\<rparr>,
                  \<lparr>mCurrentItem = (Some 0, 0), mParent = Some 0\<rparr>, False))
   \<and> find_hm 0 id (5 :: nat) (HashMap_init 1 :: (nat, nat) HashMap) \<noteq> Some (Inl ModuloByZero)
   \<and> 0 < mSize \<lparr>items = [\<lparr>mKeyValuePair = (5 :: nat, 7 :: nat), mNext = None\<rparr>],
                  mBuckets = [None, None, None, None, None, Some 0, None, None],
                  mSize = 8, mNumEntries = 1\<rparr>"
proof -
  have m: "0 < mSize (HashMap_init 1 :: (nat, nat) HashMap)"
    by (simp add: HashMap_init_def)
  have i: "insert_hm 0 id (5 :: nat, 7 :: nat) (HashMap_init 1) =
       Some (Inr (\<lparr>items = [\<lparr>mKeyValuePair = (5, 7), mNext = None\<rparr>],
                    mBuckets = [None, None, None, None, None, Some 0, None, None],
                    mSize = 8, mNumEntries = 1\<rparr>,
                  \<lparr>mCurrentItem = (Some 0, 0), mParent = Some 0\<rparr>, False))"
    by code_simp
  from bucket_index_defined_iff_capacity_positive
         [of 1 0 id "(5, 7)" 5 "HashMap_init 1 :: (nat, nat) HashMap"] m i
  show ?thesis by simp
qed

section \<open>Iterator equality\<close>

text \<open>
  C8. Two cursors compare equal exactly when they point at the same Item and carry the
  same bucket position, for both iterator classes; the parent pointer is not compared, so
  the end iterator equals every cursor with a null item and position zero, whatever map
  it came from.
\<close>

theorem iterator_eq_iff_same_item_and_bucket:
  "(iterator_eq a b \<longleftrightarrow>
      fst (mCurrentItem a) = fst (mCurrentItem b) \<and> snd (mCurrentItem a) = snd (mCurrentItem b))
   \<and> (const_iterator_eq c d \<longleftrightarrow>
      fst (mCurrentItemC c) = fst (mCurrentItemC d) \<and> snd (mCurrentItemC c) = snd (mCurrentItemC d))
   \<and> iterator_eq end_hm end_hm
   \<and> iterator_eq end_hm (new_iterator None 0 p)
   \<and> const_iterator_eq (to_const_iterator end_hm) (new_const_iterator None 0 q)"
  by (simp add: iterator_eq_def const_iterator_eq_def end_hm_def new_iterator_def
      new_const_iterator_def to_const_iterator_def prod_eq_iff)

section \<open>Round trip of insert and find\<close>

text \<open>
  C1. A map is constructed with a capacity of at least one, and pairs with pairwise
  distinct keys are inserted one after the other. Every insert returns (resizes
  included), and on the resulting map \<open>find\<close> of an inserted key returns a cursor that is
  not the end iterator and dereferences to the pair inserted with that key, while \<open>find\<close>
  of any other key returns the end iterator.
\<close>

theorem insert_then_find_round_trip:
  assumes "0 < n" and "distinct (map fst kvs)"
  shows "\<exists>t. insert_all this hf kvs (HashMap_init n) = Some (Inr t)
    \<and> (\<forall>k v. (k, v) \<in> set kvs \<longrightarrow>
          (\<exists>it. find_hm this hf k t = Some (Inr it) \<and> \<not> iterator_eq it end_hm
             \<and> deref t it = Inr (k, v)))
    \<and> (\<forall>k. k \<notin> fst ` set kvs \<longrightarrow> find_hm this hf k t = Some (Inr end_hm))"
proof -
  have inv0: "table_inv hf (HashMap_init n :: ('a, 'b) HashMap) (replicate n [])"
    using assms(1) by (rule HashMap_init_inv)
  have dj: "fst ` set kvs \<inter>
      fst ` set (contents (HashMap_init n :: ('a, 'b) HashMap) (replicate n [])) = {}"
    by simp
  from insert_all_inv [OF inv0 assms(2) dj, of this]
  obtain t css where r: "insert_all this hf kvs (HashMap_init n) = Some (Inr t)"
    and inv: "table_inv hf t css"
    and c: "set (contents t css) = set kvs"
    by auto
  have a: "\<exists>it. find_hm this hf k t = Some (Inr it) \<and> \<not> iterator_eq it end_hm
             \<and> deref t it = Inr (k, v)" if "(k, v) \<in> set kvs" for k v
  proof -
    from that c have "(k, v) \<in> set (contents t css)" by simp
    from find_hm_contents [OF inv this, of this] show ?thesis by blast
  qed
  have b: "find_hm this hf k t = Some (Inr end_hm)" if "k \<notin> fst ` set kvs" for k
  proof -
    from that c have "k \<notin> fst ` set (contents t css)" by simp
    with inv show ?thesis by (rule find_hm_not_contents)
  qed
  from r a b show ?thesis by blast
qed

theorem insert_then_find_round_trip_witness:
  "0 < (3 :: nat) \<and> distinct (map fst [(5 :: nat, 7 :: nat), (8, 2), (1, 4)])
   \<and> insert_all 0 id [(5 :: nat, 7 :: nat), (8, 2), (1, 4)] (HashMap_init 3) =
       Some (Inr \<lparr>items = [\<lparr>mKeyValuePair = (5, 7), mNext = None\<rparr>,
                            \<lparr>mKeyValuePair = (8, 2), mNext = None\<rparr>,
                            \<lparr>mKeyValuePair = (1, 4), mNext = None\<rparr>],
                   mBuckets = [None, Some 2, None, None, None, Some 0, None, None, Some 1,
                               None, None],
                   mSize = 11, mNumEntries = 3\<rparr>)
   \<and> (\<exists>t. insert_all 0 id [(5 :: nat, 7 :: nat), (8, 2), (1, 4)] (HashMap_init 3) =
            Some (Inr t)
        \<and> (\<forall>k v. (k, v) \<in> set [(5 :: nat, 7 :: nat), (8, 2), (1, 4)] \<longrightarrow>
              (\<exists>it. find_hm 0 id k t = Some (Inr it) \<and> \<not> iterator_eq it end_hm
                 \<and> deref t it = Inr (k, v)))
        \<and> (\<forall>k. k \<notin> fst ` set [(5 :: nat, 7 :: nat), (8, 2), (1, 4)] \<longrightarrow>
              find_hm 0 id k t = Some (Inr end_hm)))"
proof -
  have h1: "0 < (3 :: nat)" by simp
  have h2: "distinct (map fst [(5 :: nat, 7 :: nat), (8, 2), (1, 4)])" by simp
  have e: "insert_all 0 id [(5 :: nat, 7 :: nat), (8, 2), (1, 4)] (HashMap_init 3) =
       Some (Inr \<lparr>items = [\<lparr>mKeyValuePair = (5, 7), mNext = None\<rparr>,
                            \<lparr>mKeyValuePair = (8, 2), mNext = None\<rparr>,
                            \<lparr>mKeyValuePair = (1, 4), mNext = None\<rparr>],
                   mBuckets = [None, Some 2, None, None, None, Some 0, None, None, Some 1,
                               None, None],
                   mSize = 11, mNumEntries = 3\<rparr>)"
    by code_simp
  from insert_then_find_round_trip [OF h1 h2, of 0 id] h1 h2 e show ?thesis
    by blast
qed

section \<open>Insert of a key that is present\<close>

text \<open>
  C4. The map satisfies its invariant and stores the pair \<open>(k, v)\<close> in the Item at
  address \<open>a\<close>. Then \<open>insert\<close> of \<open>(k, v')\<close> returns the flag \<open>true\<close> and the cursor that
  \<open>find\<close> of \<open>k\<close> returned before the call, which points at the Item \<open>a\<close>; the new
  map differs from the old one only in the value of that Item, which is now \<open>v'\<close>; and
  \<open>size()\<close>, the chains and the stored keys are as before.
\<close>

theorem insert_present_key_updates_in_place:
  assumes "table_inv hf t css" and "a \<in> set (concat css)"
    and "mKeyValuePair (items t ! a) = (k, v)"
  shows "\<exists>t'. insert_hm this hf (k, v') t =
        Some (Inr (t', new_iterator (Some a) (hf k mod mSize t) (Some this), True))
    \<and> find_hm this hf k t =
        Some (Inr (new_iterator (Some a) (hf k mod mSize t) (Some this)))
    \<and> t' = t\<lparr>items := (items t)[a := (items t ! a)\<lparr>mKeyValuePair := (k, v')\<rparr>]\<rparr>
    \<and> deref t' (new_iterator (Some a) (hf k mod mSize t) (Some this)) = Inr (k, v')
    \<and> size_hm t' = size_hm t
    \<and> table_inv hf t' css
    \<and> map fst (contents t' css) = map fst (contents t css)"
proof -
  let ?t' = "t\<lparr>items := set_value a v' (items t)\<rparr>"
  let ?it = "new_iterator (Some a) (hf k mod mSize t) (Some this)"
  from assms(1) have l: "linked hf t css"
    and inj: "inj_on (key_at (items t)) (set (concat css))"
    by (simp_all add: table_inv_def)
  from assms(3) have ka: "key_at (items t) a = k" by (simp add: key_at_def)
  from linked_bound [OF l assms(2)] have al: "a < length (items t)" .
  have i: "insert_hm this hf (k, v') t = Some (Inr (?t', ?it, True))"
    using insert_hm_present [OF assms(1,2), of "(k, v')" this] ka by simp
  have f: "find_hm this hf k t = Some (Inr ?it)"
    using l inj assms(2) ka by (rule find_hm_present)
  have e: "?t' = t\<lparr>items := (items t)[a := (items t ! a)\<lparr>mKeyValuePair := (k, v')\<rparr>]\<rparr>"
    using assms(3) by (simp add: set_value_def)
  have d: "deref ?t' ?it = Inr (k, v')"
    using al ka by (simp add: deref_def new_iterator_def kv_set_value_same)
  have s: "size_hm ?t' = size_hm t" by (simp add: size_hm_def)
  have v: "table_inv hf ?t' css" using assms(1) by (rule set_value_inv)
  have "fst (mKeyValuePair (items ?t' ! c)) = fst (mKeyValuePair (items t ! c))" for c
    using key_at_set_value [of a v' "items t" c] by (simp add: key_at_def)
  then have c: "map fst (contents ?t' css) = map fst (contents t css)"
    by (simp add: contents_def)
  from i f e d s v c show ?thesis by blast
qed

theorem insert_present_key_updates_in_place_witness:
  "table_inv id
     \<lparr>items = [\<lparr>mKeyValuePair = (5 :: nat, 7 :: nat), mNext = Some 1\<rparr>,
               \<lparr>mKeyValuePair = (10, 2), mNext = None\<rparr>],
      mBuckets = [Some 0, None, None, None, None], mSize = 5, mNumEntries = 2\<rparr>
     [[0, 1], [], [], [], []]
   \<and> (1 :: nat) \<in> set (concat [[0, 1], [], [], [], []])
   \<and> insert_hm 0 id (10 :: nat, 9 :: nat)
       \<lparr>items = [\<lparr>mKeyValuePair = (5, 7), mNext = Some 1\<rparr>,
                 \<lparr>mKeyValuePair = (10, 2), mNext = None\<rparr>],
        mBuckets = [Some 0, None, None, None, None], mSize = 5, mNumEntries = 2\<rparr> =
       Some (Inr (\<lparr>items = [\<lparr>mKeyValuePair = (5, 7), mNext = Some 1\<rparr>,
                            \<lparr>mKeyValuePair = (10, 9), mNext = None\<rparr>],
                   mBuckets = [Some 0, None, None, None, None], mSize = 5, mNumEntries = 2\<rparr>,
                  new_iterator (Some 1) 0 (Some 0), True))"
proof -
  let ?t = "\<lparr>items = [\<lparr>mKeyValuePair = (5 :: nat, 7 :: nat), mNext = Some 1\<rparr>,
                      \<lparr>mKeyValuePair = (10, 2), mNext = None\<rparr>],
             mBuckets = [Some 0, None, None, None, None], mSize = 5, mNumEntries = 2\<rparr>"
  have h1: "table_inv id ?t [[0, 1], [], [], [], []]"
    unfolding table_inv_code by code_simp
  have h2: "(1 :: nat) \<in> set (concat [[0, 1], [], [], [], []])" by simp
  have h3: "mKeyValuePair (items ?t ! 1) = (10, 2)" by simp
  from insert_present_key_updates_in_place [OF h1 h2 h3, of 0 9] h1 h2
  show ?thesis by (simp add: new_iterator_def)
qed

section \<open>The load factor after an insert\<close>

text \<open>
  C2. On a map that satisfies its invariant, \<open>insert\<close> of a key that is not stored
  returns with the flag \<open>false\<close> and one entry more. If the new number of entries divided
  by the capacity exceeds 0.4, the map is resized to three times the new number of
  entries plus five, otherwise the capacity is unchanged; in both cases the number of
  entries divided by the capacity is at most 0.4 when \<open>insert\<close> returns. Ten pairs with
  distinct keys inserted into a map of capacity 23 leave the capacity at 23 after the
  ninth and make it 35 at the tenth.
\<close>

theorem insert_new_key_load_factor:
  "(table_inv hf (t :: ('a, 'b) HashMap) css \<and> fst kv \<notin> fst ` set (contents t css) \<longrightarrow>
      (\<exists>t' it. insert_hm this hf kv t = Some (Inr (t', it, False))
         \<and> size_hm t' = size_hm t + 1
         \<and> real (size_hm t') / real (mSize t') \<le> 0.4
         \<and> (if 0.4 < real (size_hm t + 1) / real (mSize t)
             then mSize t' = (size_hm t + 1) * 3 + 5 else mSize t' = mSize t)))
   \<and> (distinct (map fst (kvs :: ('a \<times> 'b) list)) \<and> length kvs = 10 \<longrightarrow>
      (\<exists>t9 t10. insert_all this hf (take 9 kvs) (HashMap_init 23) = Some (Inr t9)
         \<and> mSize t9 = 23 \<and> size_hm t9 = 9
         \<and> insert_all this hf kvs (HashMap_init 23) = Some (Inr t10)
         \<and> mSize t10 = 35 \<and> size_hm t10 = 10))"
proof (intro conjI impI)
  assume a: "table_inv hf t css \<and> fst kv \<notin> fst ` set (contents t css)"
  then have inv: "table_inv hf t css" and fresh: "fst kv \<notin> fst ` set (contents t css)"
    by simp_all
  from inv have m: "0 < mSize t" by (simp add: table_inv_def linked_def)
  from insert_hm_new_contents [OF inv fresh, of this]
  obtain t' it where
    ins: "insert_hm this hf kv t = Some (Inr (t', it, False))"
    and ne: "mNumEntries t' = mNumEntries t + 1"
    and sz: "mSize t' = (if over_threshold (mNumEntries t + 1) (mSize t)
                  then (mNumEntries t + 1) * 3 + 5 else mSize t)"
    by blast
  have no: "\<not> over_threshold (mNumEntries t') (mSize t')"
    using ne sz by (simp add: over_threshold_def)
  from sz m have m': "0 < mSize t'" by (simp split: if_splits)
  have lf: "real (size_hm t') / real (mSize t') \<le> 0.4"
    unfolding size_hm_def using m' no by (rule load_factor_real)
  have gr: "if 0.4 < real (size_hm t + 1) / real (mSize t)
             then mSize t' = (size_hm t + 1) * 3 + 5 else mSize t' = mSize t"
    using sz over_threshold_real [OF m, of "mNumEntries t + 1"]
    by (simp add: size_hm_def)
  from ins ne lf gr
  show "\<exists>t' it. insert_hm this hf kv t = Some (Inr (t', it, False))
         \<and> size_hm t' = size_hm t + 1
         \<and> real (size_hm t') / real (mSize t') \<le> 0.4
         \<and> (if 0.4 < real (size_hm t + 1) / real (mSize t)
             then mSize t' = (size_hm t + 1) * 3 + 5 else mSize t' = mSize t)"
    unfolding size_hm_def by blast
next
  assume a: "distinct (map fst kvs) \<and> length kvs = 10"
  then have d: "distinct (map fst kvs)" and len: "length kvs = 10" by simp_all
  let ?xs = "take 9 kvs"
  let ?kv = "kvs ! 9"
  from len have split: "kvs = ?xs @ [?kv]"
    using take_Suc_conv_app_nth [of 9 kvs] by simp
  from d have dx: "distinct (map fst ?xs)"
    by (simp add: take_map [symmetric] distinct_take)
  from len have lx: "length ?xs = 9" by simp
  have inv0: "table_inv hf (HashMap_init 23 :: ('a, 'b) HashMap) (replicate 23 [])"
    by (rule HashMap_init_inv) simp
  have dj: "fst ` set ?xs \<inter>
      fst ` set (contents (HashMap_init 23 :: ('a, 'b) HashMap) (replicate 23 [])) = {}"
    by simp
  have i0: "mNumEntries (HashMap_init 23 :: ('a, 'b) HashMap) = 0"
    "mSize (HashMap_init 23 :: ('a, 'b) HashMap) = 23"
    by (simp_all add: HashMap_init_def)
  from insert_all_inv [OF inv0 dx dj, of this]
  obtain t9 css9 where r9: "insert_all this hf ?xs (HashMap_init 23) = Some (Inr t9)"
    and inv9: "table_inv hf t9 css9"
    and c9: "set (contents t9 css9) = set ?xs"
    and ne9: "mNumEntries t9 = 9"
    and sz9: "mSize t9 = 23"
    unfolding lx i0 by auto
  from d split have "distinct (map fst (?xs @ [?kv]))" by simp
  then have "fst ?kv \<notin> fst ` set ?xs" by simp
  with c9 have fresh: "fst ?kv \<notin> fst ` set (contents t9 css9)" by simp
  from insert_hm_new_contents [OF inv9 fresh, of this]
  obtain t10 it where
    ins: "insert_hm this hf ?kv t9 = Some (Inr (t10, it, False))"
    and ne10: "mNumEntries t10 = mNumEntries t9 + 1"
    and sz10: "mSize t10 = (if over_threshold (mNumEntries t9 + 1) (mSize t9)
                  then (mNumEntries t9 + 1) * 3 + 5 else mSize t9)"
    by blast
  from sz10 ne9 sz9 have s35: "mSize t10 = 35" by (simp add: over_threshold_def)
  have "insert_all this hf (?xs @ [?kv]) (HashMap_init 23) = Some (Inr t10)"
    using r9 ins by (simp add: insert_all_append)
  with split have r10: "insert_all this hf kvs (HashMap_init 23) = Some (Inr t10)" by simp
  from r9 sz9 ne9 r10 s35 ne10
  show "\<exists>t9 t10. insert_all this hf (take 9 kvs) (HashMap_init 23) = Some (Inr t9)
         \<and> mSize t9 = 23 \<and> size_hm t9 = 9
         \<and> insert_all this hf kvs (HashMap_init 23) = Some (Inr t10)
         \<and> mSize t10 = 35 \<and> size_hm t10 = 10"
    by (simp add: size_hm_def)
qed

theorem insert_new_key_load_factor_witness:
  "table_inv id
     \<lparr>items = [\<lparr>mKeyValuePair = (5 :: nat, 7 :: nat), mNext = Some 1\<rparr>,
               \<lparr>mKeyValuePair = (10, 2), mNext = None\<rparr>],
      mBuckets = [Some 0, None, None, None, None], mSize = 5, mNumEntries = 2\<rparr>
     [[0, 1], [], [], [], []]
   \<and> fst (3 :: nat, 1 :: nat) \<notin> fst ` set (contents
     \<lparr>items = [\<lparr>mKeyValuePair = (5 :: nat, 7 :: nat), mNext = Some 1\<rparr>,
               \<lparr>mKeyValuePair = (10, 2), mNext = None\<rparr>],
      mBuckets = [Some 0, None, None, None, None], mSize = 5, mNumEntries = 2\<rparr>
     [[0, 1], [], [], [], []])
   \<and> distinct (map fst (map (\<lambda>i. (i, 2 * i)) [0 ..< 10 :: nat]))
   \<and> length (map (\<lambda>i. (i, 2 * i)) [0 ..< 10 :: nat]) = 10
   \<and> insert_hm 0 id (3 :: nat, 1 :: nat)
     \<lparr>items = [\<lparr>mKeyValuePair = (5 :: nat, 7 :: nat), mNext = Some 1\<rparr>,
               \<lparr>mKeyValuePair = (10, 2), mNext = None\<rparr>],
      mBuckets = [Some 0, None, None, None, None], mSize = 5, mNumEntries = 2\<rparr> =
     Some (Inr (\<lparr>items = [\<lparr>mKeyValuePair = (5, 7), mNext = None\<rparr>,
                          \<lparr>mKeyValuePair = (10, 2), mNext = None\<rparr>,
                          \<lparr>mKeyValuePair = (3, 1), mNext = None\<rparr>],
                 mBuckets = [None, None, None, Some 2, None, Some 0, None, None, None, None,
                             Some 1, None, None, None],
                 mSize = 14, mNumEntries = 3\<rparr>,
                new_iterator (Some 2) 3 (Some 0), False))
   \<and> (\<exists>t9 t10.
         insert_all 0 id (take 9 (map (\<lambda>i. (i, 2 * i)) [0 ..< 10 :: nat])) (HashMap_init 23) =
           Some (Inr t9)
       \<and> mSize t9 = 23 \<and> size_hm t9 = 9
       \<and> insert_all 0 id (map (\<lambda>i. (i, 2 * i)) [0 ..< 10 :: nat]) (HashMap_init 23) =
           Some (Inr t10)
       \<and> mSize t10 = 35 \<and> size_hm t10 = 10)"
proof -
  let ?t = "\<lparr>items = [\<lparr>mKeyValuePair = (5 :: nat, 7 :: nat), mNext = Some 1\<rparr>,
                      \<lparr>mKeyValuePair = (10, 2), mNext = None\<rparr>],
             mBuckets = [Some 0, None, None, None, None], mSize = 5, mNumEntries = 2\<rparr>"
  let ?kvs = "map (\<lambda>i. (i, 2 * i)) [0 ..< 10 :: nat]"
  have h1: "table_inv id ?t [[0, 1], [], [], [], []]"
    unfolding table_inv_code by code_simp
  have h2: "fst (3 :: nat, 1 :: nat) \<notin> fst ` set (contents ?t [[0, 1], [], [], [], []])"
    by (simp add: contents_def)
  have h3: "distinct (map fst ?kvs)" by code_simp
  have h4: "length ?kvs = 10" by simp
  have e: "insert_hm 0 id (3 :: nat, 1 :: nat) ?t =
     Some (Inr (\<lparr>items = [\<lparr>mKeyValuePair = (5, 7), mNext = None\<rparr>,
                          \<lparr>mKeyValuePair = (10, 2), mNext = None\<rparr>,
                          \<lparr>mKeyValuePair = (3, 1), mNext = None\<rparr>],
                 mBuckets = [None, None, None, Some 2, None, Some 0, None, None, None, None,
                             Some 1, None, None, None],
                 mSize = 14, mNumEntries = 3\<rparr>,
                new_iterator (Some 2) 3 (Some 0), False))"
    by code_simp
  from insert_new_key_load_factor
         [where hf = id and t = ?t and css = "[[0, 1], [], [], [], []]" and kv = "(3, 1)"
            and this = 0 and kvs = ?kvs]
       h1 h2 h3 h4 e
  show ?thesis by blast
qed

section \<open>The cursor returned by an insert that resizes\<close>

text \<open>
  C9. When \<open>insert\<close> of a new key resizes the map, the returned cursor points at the new
  Item and carries the bucket position computed with the capacity before the resize. On
  the resized map \<open>find\<close> of the same key returns a cursor to the same Item with the
  bucket position under the new capacity, so the two cursors compare equal only if the
  two positions coincide. They differ for the key 5 inserted into an empty map of
  capacity 1 with the identity as hash function: position 0 against position 5.
\<close>

theorem insert_resize_returns_stale_bucket:
  assumes "table_inv hf t css" and "fst kv \<notin> fst ` set (contents t css)"
    and "over_threshold (mNumEntries t + 1) (mSize t)"
  shows "(\<exists>t'. insert_hm this hf kv t =
          Some (Inr (t', new_iterator (Some (length (items t))) (hf (fst kv) mod mSize t)
                           (Some this), False))
      \<and> mSize t' = (mNumEntries t + 1) * 3 + 5 \<and> mSize t' \<noteq> mSize t
      \<and> deref t' (new_iterator (Some (length (items t))) (hf (fst kv) mod mSize t)
                     (Some this)) = Inr kv
      \<and> find_hm this hf (fst kv) t' =
          Some (Inr (new_iterator (Some (length (items t))) (hf (fst kv) mod mSize t')
                       (Some this)))
      \<and> (iterator_eq
            (new_iterator (Some (length (items t))) (hf (fst kv) mod mSize t) (Some this))
            (new_iterator (Some (length (items t))) (hf (fst kv) mod mSize t') (Some this))
          \<longleftrightarrow> hf (fst kv) mod mSize t = hf (fst kv) mod mSize t'))
    \<and> insert_hm 0 id (5 :: nat, 7 :: nat) (HashMap_init 1) =
        Some (Inr (\<lparr>items = [\<lparr>mKeyValuePair = (5, 7), mNext = None\<rparr>],
                     mBuckets = [None, None, None, None, None, Some 0, None, None],
                     mSize = 8, mNumEntries = 1\<rparr>,
                   new_iterator (Some 0) 0 (Some 0), False))
    \<and> find_hm 0 id (5 :: nat)
          \<lparr>items = [\<lparr>mKeyValuePair = (5 :: nat, 7 :: nat), mNext = None\<rparr>],
            mBuckets = [None, None, None, None, None, Some 0, None, None],
            mSize = 8, mNumEntries = 1\<rparr> =
        Some (Inr (new_iterator (Some 0) 5 (Some 0)))
    \<and> \<not> iterator_eq (new_iterator (Some 0) 0 (Some 0)) (new_iterator (Some 0) 5 (Some 0))"
proof -
  let ?n = "length (items t)"
  let ?it = "new_iterator (Some ?n) (hf (fst kv) mod mSize t) (Some this)"
  from insert_hm_new_contents [OF assms(1,2), of this]
  obtain t' css' where
    ins: "insert_hm this hf kv t = Some (Inr (t', ?it, False))"
    and inv': "table_inv hf t' css'"
    and mem: "?n \<in> set (concat css')"
    and kn: "mKeyValuePair (items t' ! ?n) = kv"
    and sz: "mSize t' = (if over_threshold (mNumEntries t + 1) (mSize t)
                  then (mNumEntries t + 1) * 3 + 5 else mSize t)"
    by blast
  from sz assms(3) have sz': "mSize t' = (mNumEntries t + 1) * 3 + 5" by simp
  with over_threshold_grows [OF assms(3)] have ne: "mSize t' \<noteq> mSize t" by simp
  from inv' have l': "linked hf t' css'"
    and inj': "inj_on (key_at (items t')) (set (concat css'))"
    by (simp_all add: table_inv_def)
  from linked_bound [OF l' mem] kn have d: "deref t' ?it = Inr kv"
    by (simp add: deref_def new_iterator_def)
  from kn have "key_at (items t') ?n = fst kv" by (simp add: key_at_def)
  with l' inj' mem have f: "find_hm this hf (fst kv) t' =
      Some (Inr (new_iterator (Some ?n) (hf (fst kv) mod mSize t') (Some this)))"
    by (rule find_hm_present)
  have e: "iterator_eq ?it (new_iterator (Some ?n) (hf (fst kv) mod mSize t') (Some this))
          \<longleftrightarrow> hf (fst kv) mod mSize t = hf (fst kv) mod mSize t'"
    by (simp add: iterator_eq_def new_iterator_def)
  have g: "\<exists>t'. insert_hm this hf kv t = Some (Inr (t', ?it, False))
      \<and> mSize t' = (mNumEntries t + 1) * 3 + 5 \<and> mSize t' \<noteq> mSize t
      \<and> deref t' ?it = Inr kv
      \<and> find_hm this hf (fst kv) t' =
          Some (Inr (new_iterator (Some ?n) (hf (fst kv) mod mSize t') (Some this)))
      \<and> (iterator_eq ?it (new_iterator (Some ?n) (hf (fst kv) mod mSize t') (Some this))
          \<longleftrightarrow> hf (fst kv) mod mSize t = hf (fst kv) mod mSize t')"
    using ins sz' ne d f e by blast
  have c1: "insert_hm 0 id (5 :: nat, 7 :: nat) (HashMap_init 1) =
        Some (Inr (\<lparr>items = [\<lparr>mKeyValuePair = (5, 7), mNext = None\<rparr>],
                     mBuckets = [None, None, None, None, None, Some 0, None, None],
                     mSize = 8, mNumEntries = 1\<rparr>,
                   new_iterator (Some 0) 0 (Some 0), False))"
    by code_simp
  have c2: "find_hm 0 id (5 :: nat)
          \<lparr>items = [\<lparr>mKeyValuePair = (5 :: nat, 7 :: nat), mNext = None\<rparr>],
            mBuckets = [None, None, None, None, None, Some 0, None, None],
            mSize = 8, mNumEntries = 1\<rparr> =
        Some (Inr (new_iterator (Some 0) 5 (Some 0)))"
    by code_simp
  have c3: "\<not> iterator_eq (new_iterator (Some 0) 0 (Some 0)) (new_iterator (Some 0) 5 (Some 0))"
    by (simp add: iterator_eq_def new_iterator_def)
  from g c1 c2 c3 show ?thesis by blast
qed

theorem insert_resize_returns_stale_bucket_witness:
  "table_inv id (HashMap_init 1 :: (nat, nat) HashMap) [[]]
   \<and> fst (5 :: nat, 7 :: nat) \<notin> fst ` set (contents (HashMap_init 1 :: (nat, nat) HashMap) [[]])
   \<and> over_threshold (mNumEntries (HashMap_init 1 :: (nat, nat) HashMap) + 1)
         (mSize (HashMap_init 1 :: (nat, nat) HashMap))
   \<and> (\<exists>t'. insert_hm 0 id (5 :: nat, 7 :: nat) (HashMap_init 1) =
          Some (Inr (t', new_iterator (Some 0) 0 (Some 0), False))
      \<and> mSize t' = 8
      \<and> find_hm 0 id 5 t' = Some (Inr (new_iterator (Some 0) (5 mod mSize t') (Some 0))))"
proof -
  let ?t = "HashMap_init 1 :: (nat, nat) HashMap"
  have h1: "table_inv id ?t [[]]"
    unfolding table_inv_code by code_simp
  have h2: "fst (5 :: nat, 7 :: nat) \<notin> fst ` set (contents ?t [[]])"
    by (simp add: contents_def)
  have h3: "over_threshold (mNumEntries ?t + 1) (mSize ?t)"
    by (simp add: over_threshold_def HashMap_init_def)
  have i: "length (items ?t) = 0" "mSize ?t = 1" "mNumEntries ?t = 0"
    by (simp_all add: HashMap_init_def)
  from insert_resize_returns_stale_bucket [OF h1 h2 h3, of 0] h1 h2 h3
  show ?thesis unfolding i by auto
qed

section \<open>resize\<close>

text \<open>
  C3. \<open>resize\<close> to the current capacity returns the map as it is. \<open>resize\<close> of a map
  that satisfies its invariant to another capacity of at least one returns a map of that
  capacity that satisfies the invariant, with \<open>size()\<close> and the stored pairs unchanged:
  \<open>find\<close> of a stored key returns a cursor to the same Item as before, now with the
  bucket position under the new capacity, and the Item holds the same pair; \<open>find\<close> of
  any other key returns the end iterator. One round of the second loop, on a linked map
  and an Item \<open>p\<close> that is in no chain, leaves \<open>p\<close> as the last Item of the chain of the
  bucket that its key hashes to under the current capacity, with a null successor,
  whatever its successor was before, and does not change the number of entries.
\<close>

theorem resize_keeps_entries:
  "resize hf (mSize t) t = Some (Inr t)
   \<and> (table_inv hf t css \<and> 0 < n \<and> n \<noteq> mSize t \<longrightarrow>
        (\<exists>t' css'. resize hf n t = Some (Inr t') \<and> table_inv hf t' css'
           \<and> mSize t' = n \<and> size_hm t' = size_hm t
           \<and> set (contents t' css') = set (contents t css)
           \<and> (\<forall>k v. (k, v) \<in> set (contents t css) \<longrightarrow>
                 (\<exists>a. find_hm this hf k t =
                        Some (Inr (new_iterator (Some a) (hf k mod mSize t) (Some this)))
                    \<and> find_hm this hf k t' =
                        Some (Inr (new_iterator (Some a) (hf k mod n) (Some this)))
                    \<and> deref t' (new_iterator (Some a) (hf k mod n) (Some this)) = Inr (k, v)))
           \<and> (\<forall>k. k \<notin> fst ` set (contents t css) \<longrightarrow>
                 find_hm this hf k t' = Some (Inr end_hm))))
   \<and> (linked hf u dss \<and> p < length (items u) \<and> p \<notin> set (concat dss)
        \<and> (\<forall>x. mNext (items u ! p) = Some x \<longrightarrow> x \<in> set tmp) \<longrightarrow>
        (\<exists>u'. reinsert_item hf tmp p u = Some (Inr u')
           \<and> linked hf u' (dss[hf (key_at (items u) p) mod mSize u :=
                               dss ! (hf (key_at (items u) p) mod mSize u) @ [p]])
           \<and> mNext (items u' ! p) = None
           \<and> mNumEntries u' = mNumEntries u \<and> mSize u' = mSize u))"
proof (intro conjI impI)
  show "resize hf (mSize t) t = Some (Inr t)" by (simp add: resize_def)
next
  assume a: "table_inv hf t css \<and> 0 < n \<and> n \<noteq> mSize t"
  then have inv: "table_inv hf t css" and n: "0 < n" "n \<noteq> mSize t" by simp_all
  from inv have l: "linked hf t css" by (simp add: table_inv_def)
  from resize_correct [OF inv n]
  obtain t' css' where r: "resize hf n t = Some (Inr t')"
    and inv': "table_inv hf t' css'"
    and s': "set (concat css') = set (concat css)"
    and kv': "map mKeyValuePair (items t') = map mKeyValuePair (items t)"
    and ne': "mNumEntries t' = mNumEntries t" and sz': "mSize t' = n"
    by blast
  have same: "mKeyValuePair (items t' ! a) = mKeyValuePair (items t ! a)"
    if "a \<in> set (concat css)" for a
    using kv' linked_bound [OF l that] by (rule key_at_map_kv)
  have c': "set (contents t' css') = set (contents t css)"
    unfolding set_contents s' by (rule image_cong [OF refl]) (rule same)
  have f1: "\<exists>a. find_hm this hf k t =
                  Some (Inr (new_iterator (Some a) (hf k mod mSize t) (Some this)))
      \<and> find_hm this hf k t' = Some (Inr (new_iterator (Some a) (hf k mod n) (Some this)))
      \<and> deref t' (new_iterator (Some a) (hf k mod n) (Some this)) = Inr (k, v)"
    if "(k, v) \<in> set (contents t css)" for k v
  proof -
    from find_hm_contents [OF inv that, of this]
    obtain a where a: "a \<in> set (concat css)" "mKeyValuePair (items t ! a) = (k, v)"
      and f: "find_hm this hf k t =
                Some (Inr (new_iterator (Some a) (hf k mod mSize t) (Some this)))"
      by blast
    from a same [OF a(1)] have kv: "mKeyValuePair (items t' ! a) = (k, v)" by simp
    then have k: "key_at (items t') a = k" by (simp add: key_at_def)
    from inv' have l': "linked hf t' css'"
      and inj': "inj_on (key_at (items t')) (set (concat css'))"
      by (simp_all add: table_inv_def)
    from a(1) s' have m': "a \<in> set (concat css')" by simp
    from find_hm_present [OF l' inj' m' k, of this] sz'
    have f': "find_hm this hf k t' =
                Some (Inr (new_iterator (Some a) (hf k mod n) (Some this)))" by simp
    from linked_bound [OF l' m'] kv
    have "deref t' (new_iterator (Some a) (hf k mod n) (Some this)) = Inr (k, v)"
      by (simp add: deref_def new_iterator_def)
    with f f' show ?thesis by blast
  qed
  have f2: "find_hm this hf k t' = Some (Inr end_hm)"
    if "k \<notin> fst ` set (contents t css)" for k
    using inv' that unfolding c' [symmetric] by (rule find_hm_not_contents)
  from r inv' sz' ne' c' f1 f2
  show "\<exists>t' css'. resize hf n t = Some (Inr t') \<and> table_inv hf t' css'
           \<and> mSize t' = n \<and> size_hm t' = size_hm t
           \<and> set (contents t' css') = set (contents t css)
           \<and> (\<forall>k v. (k, v) \<in> set (contents t css) \<longrightarrow>
                 (\<exists>a. find_hm this hf k t =
                        Some (Inr (new_iterator (Some a) (hf k mod mSize t) (Some this)))
                    \<and> find_hm this hf k t' =
                        Some (Inr (new_iterator (Some a) (hf k mod n) (Some this)))
                    \<and> deref t' (new_iterator (Some a) (hf k mod n) (Some this)) = Inr (k, v)))
           \<and> (\<forall>k. k \<notin> fst ` set (contents t css) \<longrightarrow>
                 find_hm this hf k t' = Some (Inr end_hm))"
    unfolding size_hm_def by blast
next
  assume a: "linked hf u dss \<and> p < length (items u) \<and> p \<notin> set (concat dss)
        \<and> (\<forall>x. mNext (items u ! p) = Some x \<longrightarrow> x \<in> set tmp)"
  then have l: "linked hf u dss" and pl: "p < length (items u)"
    and pn: "p \<notin> set (concat dss)"
    and nx: "\<And>x. mNext (items u ! p) = Some x \<Longrightarrow> x \<in> set tmp"
    by simp_all
  let ?b = "hf (key_at (items u) p) mod mSize u"
  from reinsert_item_linked [OF l pl pn nx]
  obtain u' where r: "reinsert_item hf tmp p u = Some (Inr u')"
    and l': "linked hf u' (dss[?b := dss ! ?b @ [p]])"
    and ne: "mNumEntries u' = mNumEntries u" and sz: "mSize u' = mSize u"
    by blast
  from l sz have "?b < mSize u'" by (simp add: linked_def)
  with l' have "mNext (items u' ! p) = None" by (rule linked_tail_next)
  with r l' ne sz
  show "\<exists>u'. reinsert_item hf tmp p u = Some (Inr u')
           \<and> linked hf u' (dss[?b := dss ! ?b @ [p]])
           \<and> mNext (items u' ! p) = None
           \<and> mNumEntries u' = mNumEntries u \<and> mSize u' = mSize u"
    by blast
qed

theorem resize_keeps_entries_witness:
  "table_inv id
     \<lparr>items = [\<lparr>mKeyValuePair = (5 :: nat, 7 :: nat), mNext = Some 1\<rparr>,
               \<lparr>mKeyValuePair = (10, 2), mNext = None\<rparr>],
      mBuckets = [Some 0, None, None, None, None], mSize = 5, mNumEntries = 2\<rparr>
     [[0, 1], [], [], [], []]
   \<and> 0 < (7 :: nat) \<and> (7 :: nat) \<noteq> 5
   \<and> resize id 7
     \<lparr>items = [\<lparr>mKeyValuePair = (5 :: nat, 7 :: nat), mNext = Some 1\<rparr>,
               \<lparr>mKeyValuePair = (10, 2), mNext = None\<rparr>],
      mBuckets = [Some 0, None, None, None, None], mSize = 5, mNumEntries = 2\<rparr> =
     Some (Inr \<lparr>items = [\<lparr>mKeyValuePair = (5, 7), mNext = None\<rparr>,
                         \<lparr>mKeyValuePair = (10, 2), mNext = None\<rparr>],
                mBuckets = [None, None, None, Some 1, None, Some 0, None],
                mSize = 7, mNumEntries = 2\<rparr>)
   \<and> linked id
     \<lparr>items = [\<lparr>mKeyValuePair = (5 :: nat, 7 :: nat), mNext = Some 1\<rparr>,
               \<lparr>mKeyValuePair = (10, 2), mNext = None\<rparr>],
      mBuckets = [None, None, None, None, None, None, None], mSize = 7, mNumEntries = 2\<rparr>
     [[], [], [], [], [], [], []]
   \<and> (0 :: nat) \<notin> set (concat [[], [], [], [], [], [], []])
   \<and> reinsert_item id [0, 1] 0
     \<lparr>items = [\<lparr>mKeyValuePair = (5 :: nat, 7 :: nat), mNext = Some 1\<rparr>,
               \<lparr>mKeyValuePair = (10, 2), mNext = None\<rparr>],
      mBuckets = [None, None, None, None, None, None, None], mSize = 7, mNumEntries = 2\<rparr> =
     Some (Inr \<lparr>items = [\<lparr>mKeyValuePair = (5, 7), mNext = None\<rparr>,
                         \<lparr>mKeyValuePair = (10, 2), mNext = None\<rparr>],
                mBuckets = [None, None, None, None, None, Some 0, None],
                mSize = 7, mNumEntries = 2\<rparr>)
   \<and> (\<exists>t' css'. resize id 7
     \<lparr>items = [\<lparr>mKeyValuePair = (5 :: nat, 7 :: nat), mNext = Some 1\<rparr>,
               \<lparr>mKeyValuePair = (10, 2), mNext = None\<rparr>],
      mBuckets = [Some 0, None, None, None, None], mSize = 5, mNumEntries = 2\<rparr> = Some (Inr t')
        \<and> table_inv id t' css' \<and> mSize t' = 7 \<and> size_hm t' = 2)"
proof -
  let ?t = "\<lparr>items = [\<lparr>mKeyValuePair = (5 :: nat, 7 :: nat), mNext = Some 1\<rparr>,
                      \<lparr>mKeyValuePair = (10, 2), mNext = None\<rparr>],
             mBuckets = [Some 0, None, None, None, None], mSize = 5, mNumEntries = 2\<rparr>"
  let ?u = "\<lparr>items = [\<lparr>mKeyValuePair = (5 :: nat, 7 :: nat), mNext = Some 1\<rparr>,
                      \<lparr>mKeyValuePair = (10, 2), mNext = None\<rparr>],
             mBuckets = [None, None, None, None, None, None, None], mSize = 7,
             mNumEntries = 2\<rparr>"
  have h1: "table_inv id ?t [[0, 1], [], [], [], []]"
    unfolding table_inv_code by code_simp
  have h2: "0 < (7 :: nat)" "(7 :: nat) \<noteq> mSize ?t" by simp_all
  have h3: "linked id ?u [[], [], [], [], [], [], []]"
    unfolding linked_code by code_simp
  have h4: "0 < length (items ?u)" by simp
  have h5: "(0 :: nat) \<notin> set (concat [[], [], [], [], [], [], []])" by simp
  have h6: "\<forall>x. mNext (items ?u ! 0) = Some x \<longrightarrow> x \<in> set [0, 1]" by simp
  have e1: "resize id 7 ?t =
     Some (Inr \<lparr>items = [\<lparr>mKeyValuePair = (5, 7), mNext = None\<rparr>,
                         \<lparr>mKeyValuePair = (10, 2), mNext = None\<rparr>],
                mBuckets = [None, None, None, Some 1, None, Some 0, None],
                mSize = 7, mNumEntries = 2\<rparr>)"
    by code_simp
  have e2: "reinsert_item id [0, 1] 0 ?u =
     Some (Inr \<lparr>items = [\<lparr>mKeyValuePair = (5, 7), mNext = None\<rparr>,
                         \<lparr>mKeyValuePair = (10, 2), mNext = None\<rparr>],
                mBuckets = [None, None, None, None, None, Some 0, None],
                mSize = 7, mNumEntries = 2\<rparr>)"
    by code_simp
  have sz: "size_hm ?t = 2" by (simp add: size_hm_def)
  from resize_keeps_entries
         [where hf = id and t = ?t and css = "[[0, 1], [], [], [], []]" and n = 7
            and this = 0 and u = ?u and dss = "[[], [], [], [], [], [], []]"
            and p = 0 and tmp = "[0, 1]"]
       h1 h2 h3 h4 h5 h6
  have "\<exists>t' css'. resize id 7 ?t = Some (Inr t')
        \<and> table_inv id t' css' \<and> mSize t' = 7 \<and> size_hm t' = size_hm ?t"
    by blast
  with h1 h2 h3 h5 e1 e2 sz show ?thesis by simp
qed

section \<open>begin and the empty map\<close>

text \<open>
  C7. On a map that satisfies its invariant, \<open>empty()\<close> holds exactly when \<open>size()\<close> is
  zero, \<open>begin()\<close> returns a cursor, and that cursor equals \<open>end()\<close> exactly when
  \<open>size()\<close> is zero. When \<open>size()\<close> is not zero the cursor is at the head of the chain
  of the first non-empty bucket, counting bucket positions from zero, and carries that
  position.
\<close>

theorem begin_is_first_nonempty_bucket:
  assumes "table_inv hf t css"
  shows "(empty_hm t \<longleftrightarrow> size_hm t = 0)
    \<and> (\<exists>it. begin_hm this t = Inr it
          \<and> (iterator_eq it end_hm \<longleftrightarrow> size_hm t = 0)
          \<and> (size_hm t \<noteq> 0 \<longrightarrow>
                (\<exists>j < length (mBuckets t).
                    mBuckets t ! j = Some (hd (css ! j)) \<and> css ! j \<noteq> []
                  \<and> (\<forall>i < j. mBuckets t ! i = None)
                  \<and> it = new_iterator (mBuckets t ! j) j (Some this))))"
proof -
  from assms have l: "linked hf t css" and cnt: "mNumEntries t = length (concat css)"
    by (simp_all add: table_inv_def)
  from l have len: "length (mBuckets t) = mSize t" "length css = mSize t"
    by (simp_all add: linked_def)
  have e: "empty_hm t \<longleftrightarrow> size_hm t = 0" by (simp add: empty_hm_def size_hm_def)
  show ?thesis
  proof (cases "mNumEntries t = 0")
    case True
    then have "begin_hm this t = Inr (new_iterator None 0 (Some this))"
      by (simp add: begin_hm_def getFirstItem_def empty_hm_def)
    moreover have "iterator_eq (new_iterator None 0 (Some this)) end_hm"
      by (simp add: iterator_eq_def new_iterator_def end_hm_def)
    ultimately show ?thesis using True e by (simp add: size_hm_def)
  next
    case False
    with cnt have "concat css \<noteq> []" by auto
    then obtain a where "a \<in> set (concat css)" by (cases "concat css") auto
    then obtain i where i: "i < length css" "a \<in> set (css ! i)"
      unfolding in_concat_nth by blast
    with len linked_chain [OF l, of i] have "mBuckets t ! i \<noteq> None"
      by (cases "css ! i") auto
    with i(1) len have "List.find (\<lambda>j. mBuckets t ! j \<noteq> None) [0..<length (mBuckets t)] \<noteq> None"
      by (auto simp: find_upt_none)
    then obtain j where
      f: "List.find (\<lambda>j. mBuckets t ! j \<noteq> None) [0..<length (mBuckets t)] = Some j"
      by blast
    from find_upt_first [OF f]
    have j: "j < length (mBuckets t)" "mBuckets t ! j \<noteq> None"
      "\<forall>m < j. mBuckets t ! m = None" by auto
    from j(1) len have "chain (items t) (mBuckets t ! j) (css ! j)"
      using linked_chain [OF l, of j] by simp
    with j(2) have h: "mBuckets t ! j = Some (hd (css ! j)) \<and> css ! j \<noteq> []"
      by (cases "css ! j") simp_all
    from f have s: "scan_buckets (mBuckets t) 0 = Some (mBuckets t ! j, j)"
      by (simp add: scan_buckets_find)
    with False have b: "begin_hm this t = Inr (new_iterator (mBuckets t ! j) j (Some this))"
      by (simp add: begin_hm_def getFirstItem_def empty_hm_def)
    from j(2) have n: "\<not> iterator_eq (new_iterator (mBuckets t ! j) j (Some this)) end_hm"
      by (simp add: iterator_eq_def new_iterator_def end_hm_def)
    let ?it = "new_iterator (mBuckets t ! j) j (Some this)"
    from j h have x: "\<exists>j < length (mBuckets t).
          mBuckets t ! j = Some (hd (css ! j)) \<and> css ! j \<noteq> []
        \<and> (\<forall>i < j. mBuckets t ! i = None)
        \<and> ?it = new_iterator (mBuckets t ! j) j (Some this)"
      by blast
    from False n have y: "iterator_eq ?it end_hm \<longleftrightarrow> size_hm t = 0"
      by (simp add: size_hm_def)
    from b x y have "\<exists>it. begin_hm this t = Inr it
          \<and> (iterator_eq it end_hm \<longleftrightarrow> size_hm t = 0)
          \<and> (size_hm t \<noteq> 0 \<longrightarrow>
                (\<exists>j < length (mBuckets t).
                    mBuckets t ! j = Some (hd (css ! j)) \<and> css ! j \<noteq> []
                  \<and> (\<forall>i < j. mBuckets t ! i = None)
                  \<and> it = new_iterator (mBuckets t ! j) j (Some this)))"
      by (intro exI [of _ ?it] conjI impI)
    with e show ?thesis by (rule conjI)
  qed
qed

theorem begin_is_first_nonempty_bucket_witness:
  "table_inv id
     \<lparr>items = [\<lparr>mKeyValuePair = (8 :: nat, 1 :: nat), mNext = Some 1\<rparr>,
               \<lparr>mKeyValuePair = (13, 2), mNext = None\<rparr>,
               \<lparr>mKeyValuePair = (4, 4), mNext = None\<rparr>],
      mBuckets = [None, None, None, Some 0, Some 2], mSize = 5, mNumEntries = 3\<rparr>
     [[], [], [], [0, 1], [2]]
   \<and> begin_hm 0
     \<lparr>items = [\<lparr>mKeyValuePair = (8 :: nat, 1 :: nat), mNext = Some 1\<rparr>,
               \<lparr>mKeyValuePair = (13, 2), mNext = None\<rparr>,
               \<lparr>mKeyValuePair = (4, 4), mNext = None\<rparr>],
      mBuckets = [None, None, None, Some 0, Some 2], mSize = 5, mNumEntries = 3\<rparr> =
     Inr (new_iterator (Some 0) 3 (Some 0))
   \<and> table_inv id (HashMap_init 5 :: (nat, nat) HashMap) [[], [], [], [], []]
   \<and> begin_hm 0 (HashMap_init 5 :: (nat, nat) HashMap) = Inr (new_iterator None 0 (Some 0))
   \<and> (\<exists>it. begin_hm 0 (HashMap_init 5 :: (nat, nat) HashMap) = Inr it
         \<and> (iterator_eq it end_hm \<longleftrightarrow> size_hm (HashMap_init 5 :: (nat, nat) HashMap) = 0))
   \<and> (\<exists>it. begin_hm 0
     \<lparr>items = [\<lparr>mKeyValuePair = (8 :: nat, 1 :: nat), mNext = Some 1\<rparr>,
               \<lparr>mKeyValuePair = (13, 2), mNext = None\<rparr>,
               \<lparr>mKeyValuePair = (4, 4), mNext = None\<rparr>],
      mBuckets = [None, None, None, Some 0, Some 2], mSize = 5, mNumEntries = 3\<rparr> = Inr it
         \<and> (iterator_eq it end_hm \<longleftrightarrow> size_hm
     \<lparr>items = [\<lparr>mKeyValuePair = (8 :: nat, 1 :: nat), mNext = Some 1\<rparr>,
               \<lparr>mKeyValuePair = (13, 2), mNext = None\<rparr>,
               \<lparr>mKeyValuePair = (4, 4), mNext = None\<rparr>],
      mBuckets = [None, None, None, Some 0, Some 2], mSize = 5, mNumEntries = 3\<rparr> = 0))"
proof -
  let ?t = "\<lparr>items = [\<lparr>mKeyValuePair = (8 :: nat, 1 :: nat), mNext = Some 1\<rparr>,
                      \<lparr>mKeyValuePair = (13, 2), mNext = None\<rparr>,
                      \<lparr>mKeyValuePair = (4, 4), mNext = None\<rparr>],
             mBuckets = [None, None, None, Some 0, Some 2], mSize = 5, mNumEntries = 3\<rparr>"
  have h1: "table_inv id ?t [[], [], [], [0, 1], [2]]"
    unfolding table_inv_code by code_simp
  have h2: "table_inv id (HashMap_init 5 :: (nat, nat) HashMap) [[], [], [], [], []]"
    unfolding table_inv_code by code_simp
  have e1: "begin_hm 0 ?t = Inr (new_iterator (Some 0) 3 (Some 0))" by code_simp
  have e2: "begin_hm 0 (HashMap_init 5 :: (nat, nat) HashMap) = Inr (new_iterator None 0 (Some 0))"
    by code_simp
  have p: "\<exists>it. begin_hm 0 (HashMap_init 5 :: (nat, nat) HashMap) = Inr it
         \<and> (iterator_eq it end_hm \<longleftrightarrow> size_hm (HashMap_init 5 :: (nat, nat) HashMap) = 0)"
    using begin_is_first_nonempty_bucket [OF h2, of 0]
    by - (elim conjE exE, intro exI conjI, assumption+)
  have q: "\<exists>it. begin_hm 0 ?t = Inr it \<and> (iterator_eq it end_hm \<longleftrightarrow> size_hm ?t = 0)"
    using begin_is_first_nonempty_bucket [OF h1, of 0]
    by - (elim conjE exE, intro exI conjI, assumption+)
  from h1 e1 h2 e2 p q show ?thesis by (intro conjI)
qed

section \<open>The increment of the iterators\<close>

text \<open>
  C6. The increment of the const iterator, \<open>const_iterator::operator++\<close> through
  \<open>getNextItem( const ConstItemPair& ) const\<close>: from a cursor at an Item of its parent
  map it goes to the successor of the Item in its chain, with the same bucket position,
  if there is one; otherwise to the head of the chain of the first non-empty bucket at a
  greater position, with that position; otherwise it becomes equal to the end iterator.
  The increment of the mutable iterator, \<open>iterator::operator++\<close>, calls
  \<open>mParent->findNext\<close>, a member that class \<open>HashMap\<close> does not declare, and the
  non-const \<open>getNextItem\<close> passes shared pointers where the \<open>ItemPair\<close> constructor
  takes an \<open>Item*\<close>: neither can be instantiated, so the mutable iterator has no
  increment, and the theorem is about the const iterator alone.
\<close>

theorem const_iterator_inc_next_item:
  assumes "mParentC it = Some p" "maps p = Some t"
    and "mCurrentItemC it = (Some c, b)" "c < length (items t)"
  shows "(\<forall>s. mNext (items t ! c) = Some s \<longrightarrow>
            const_iterator_inc maps it = Inr (it\<lparr>mCurrentItemC := (Some s, b)\<rparr>))
       \<and> (mNext (items t ! c) = None \<longrightarrow>
            (\<forall>j. b < j \<and> j < length (mBuckets t) \<and> mBuckets t ! j \<noteq> None
                 \<and> (\<forall>m. b < m \<and> m < j \<longrightarrow> mBuckets t ! m = None) \<longrightarrow>
                 const_iterator_inc maps it = Inr (it\<lparr>mCurrentItemC := (mBuckets t ! j, j)\<rparr>))
          \<and> ((\<forall>j. b < j \<and> j < length (mBuckets t) \<longrightarrow> mBuckets t ! j = None) \<longrightarrow>
                 (\<exists>it'. const_iterator_inc maps it = Inr it'
                    \<and> const_iterator_eq it' (to_const_iterator end_hm))))"
proof (intro conjI impI allI)
  fix s assume "mNext (items t ! c) = Some s"
  with assms(3,4) have "getNextItemC t (mCurrentItemC it) = Inr (Some s, b)"
    using getNextItemC_successor [of "mCurrentItemC it" c t s] by simp
  with assms(1,2)
  show "const_iterator_inc maps it = Inr (it\<lparr>mCurrentItemC := (Some s, b)\<rparr>)"
    by (simp add: const_iterator_inc_def)
next
  fix j assume a: "mNext (items t ! c) = None"
    "b < j \<and> j < length (mBuckets t) \<and> mBuckets t ! j \<noteq> None
       \<and> (\<forall>m. b < m \<and> m < j \<longrightarrow> mBuckets t ! m = None)"
  with assms(3,4) have "getNextItemC t (mCurrentItemC it) = Inr (mBuckets t ! j, j)"
    using getNextItemC_next_bucket [of "mCurrentItemC it" c t j] by simp
  with assms(1,2)
  show "const_iterator_inc maps it = Inr (it\<lparr>mCurrentItemC := (mBuckets t ! j, j)\<rparr>)"
    by (simp add: const_iterator_inc_def)
next
  assume a: "mNext (items t ! c) = None"
    "\<forall>j. b < j \<and> j < length (mBuckets t) \<longrightarrow> mBuckets t ! j = None"
  with assms(3,4) have "getNextItemC t (mCurrentItemC it) = Inr (mCurrentItem end_hm)"
    using getNextItemC_end [of "mCurrentItemC it" c t] by simp
  with assms(1,2)
  have "const_iterator_inc maps it = Inr (it\<lparr>mCurrentItemC := mCurrentItem end_hm\<rparr>)"
    by (simp add: const_iterator_inc_def)
  then show "\<exists>it'. const_iterator_inc maps it = Inr it'
      \<and> const_iterator_eq it' (to_const_iterator end_hm)"
    by (simp add: const_iterator_eq_def to_const_iterator_def)
qed

text \<open>
  The map of capacity 8 after the inserts of (8, 1), (16, 2) and (3, 4), with the
  identity as hash function: the keys 8 and 16 share bucket 0, the key 3 is in bucket 3.
  From \<open>begin()\<close> the const iterator goes to the second Item of bucket 0, then to the
  head of bucket 3, then to the end.
\<close>

theorem const_iterator_inc_next_item_witness:
  "insert_all 0 (\<lambda>k. k) [(8 :: nat, 1 :: nat), (16, 2), (3, 4)] (HashMap_init 8) =
     Some (Inr \<lparr>items = [\<lparr>mKeyValuePair = (8, 1), mNext = Some 1\<rparr>,
                          \<lparr>mKeyValuePair = (16, 2), mNext = None\<rparr>,
                          \<lparr>mKeyValuePair = (3, 4), mNext = None\<rparr>],
                 mBuckets = [Some 0, None, None, Some 2, None, None, None, None],
                 mSize = 8, mNumEntries = 3\<rparr>)
   \<and> begin_hm 0
       \<lparr>items = [\<lparr>mKeyValuePair = (8 :: nat, 1 :: nat), mNext = Some 1\<rparr>,
                 \<lparr>mKeyValuePair = (16, 2), mNext = None\<rparr>,
                 \<lparr>mKeyValuePair = (3, 4), mNext = None\<rparr>],
        mBuckets = [Some 0, None, None, Some 2, None, None, None, None],
        mSize = 8, mNumEntries = 3\<rparr> = Inr \<lparr>mCurrentItem = (Some 0, 0), mParent = Some 0\<rparr>
   \<and> const_iterator_inc
       [0 \<mapsto> \<lparr>items = [\<lparr>mKeyValuePair = (8 :: nat, 1 :: nat), mNext = Some 1\<rparr>,
                         \<lparr>mKeyValuePair = (16, 2), mNext = None\<rparr>,
                         \<lparr>mKeyValuePair = (3, 4), mNext = None\<rparr>],
                mBuckets = [Some 0, None, None, Some 2, None, None, None, None],
                mSize = 8, mNumEntries = 3\<rparr>]
       \<lparr>mCurrentItemC = (Some 0, 0), mParentC = Some 0\<rparr> =
     Inr \<lparr>mCurrentItemC = (Some 1, 0), mParentC = Some 0\<rparr>
   \<and> const_iterator_inc
       [0 \<mapsto> \<lparr>items = [\<lparr>mKeyValuePair = (8 :: nat, 1 :: nat), mNext = Some 1\<rparr>,
                         \<lparr>mKeyValuePair = (16, 2), mNext = None\<rparr>,
                         \<lparr>mKeyValuePair = (3, 4), mNext = None\<rparr>],
                mBuckets = [Some 0, None, None, Some 2, None, None, None, None],
                mSize = 8, mNumEntries = 3\<rparr>]
       \<lparr>mCurrentItemC = (Some 1, 0), mParentC = Some 0\<rparr> =
     Inr \<lparr>mCurrentItemC = (Some 2, 3), mParentC = Some 0\<rparr>
   \<and> (\<exists>it'. const_iterator_inc
       [0 \<mapsto> \<lparr>items = [\<lparr>mKeyValuePair = (8 :: nat, 1 :: nat), mNext = Some 1\<rparr>,
                         \<lparr>mKeyValuePair = (16, 2), mNext = None\<rparr>,
                         \<lparr>mKeyValuePair = (3, 4), mNext = None\<rparr>],
                mBuckets = [Some 0, None, None, Some 2, None, None, None, None],
                mSize = 8, mNumEntries = 3\<rparr>]
       \<lparr>mCurrentItemC = (Some 2, 3), mParentC = Some 0\<rparr> = Inr it'
      \<and> const_iterator_eq it' (to_const_iterator end_hm))"
proof -
  let ?t = "\<lparr>items = [\<lparr>mKeyValuePair = (8 :: nat, 1 :: nat), mNext = Some 1\<rparr>,
                      \<lparr>mKeyValuePair = (16, 2), mNext = None\<rparr>,
                      \<lparr>mKeyValuePair = (3, 4), mNext = None\<rparr>],
             mBuckets = [Some 0, None, None, Some 2, None, None, None, None],
             mSize = 8, mNumEntries = 3\<rparr>"
  let ?maps = "[0 \<mapsto> ?t]"
  let ?it0 = "\<lparr>mCurrentItemC = (Some (0 :: nat), 0 :: nat), mParentC = Some (0 :: nat)\<rparr>"
  let ?it1 = "\<lparr>mCurrentItemC = (Some (1 :: nat), 0 :: nat), mParentC = Some (0 :: nat)\<rparr>"
  let ?it2 = "\<lparr>mCurrentItemC = (Some (2 :: nat), 3 :: nat), mParentC = Some (0 :: nat)\<rparr>"
  have ins: "insert_all 0 (\<lambda>k. k) [(8 :: nat, 1 :: nat), (16, 2), (3, 4)] (HashMap_init 8) =
      Some (Inr ?t)"
    by code_simp
  have bg: "begin_hm 0 ?t = Inr \<lparr>mCurrentItem = (Some 0, 0), mParent = Some 0\<rparr>"
    by code_simp
  have pm: "?maps 0 = Some ?t" by simp
  have n0: "mNext (items ?t ! 0) = Some 1" by simp
  have n1: "mNext (items ?t ! 1) = None" by simp
  have n2: "mNext (items ?t ! 2) = None" by simp
  have mb: "\<And>m. m \<in> {1, 2, 4, 5, 6, 7} \<Longrightarrow> mBuckets ?t ! m = None" by auto
  have g1: "(0 :: nat) < 3 \<and> 3 < length (mBuckets ?t) \<and> mBuckets ?t ! 3 \<noteq> None
      \<and> (\<forall>m. 0 < m \<and> m < 3 \<longrightarrow> mBuckets ?t ! m = None)"
  proof (intro conjI allI impI)
    fix m :: nat assume "0 < m \<and> m < 3"
    then have "m \<in> {1, 2, 4, 5, 6, 7}" by auto
    then show "mBuckets ?t ! m = None" by (rule mb)
  qed simp_all
  have g2: "\<forall>j. 3 < j \<and> j < length (mBuckets ?t) \<longrightarrow> mBuckets ?t ! j = None"
  proof (intro allI impI)
    fix j :: nat assume "3 < j \<and> j < length (mBuckets ?t)"
    then have "j \<in> {1, 2, 4, 5, 6, 7}" by auto
    then show "mBuckets ?t ! j = None" by (rule mb)
  qed
  have a0: "const_iterator_inc ?maps ?it0 = Inr ?it1"
    using const_iterator_inc_next_item [where it = ?it0 and p = 0 and maps = ?maps
        and t = ?t and c = 0 and b = 0, THEN conjunct1, THEN spec, of 1, THEN mp, OF _ pm _ _ n0]
    by simp
  have a1: "const_iterator_inc ?maps ?it1 = Inr ?it2"
    using const_iterator_inc_next_item [where it = ?it1 and p = 0 and maps = ?maps
        and t = ?t and c = 1 and b = 0, THEN conjunct2, THEN mp, OF _ pm _ _ n1,
        THEN conjunct1, THEN spec, of 3, THEN mp, OF _ _ _ g1]
    by simp
  have a2: "\<exists>it'. const_iterator_inc ?maps ?it2 = Inr it'
      \<and> const_iterator_eq it' (to_const_iterator end_hm)"
    using const_iterator_inc_next_item [where it = ?it2 and p = 0 and maps = ?maps
        and t = ?t and c = 2 and b = 3, THEN conjunct2, THEN mp, OF _ pm _ _ n2,
        THEN conjunct2, THEN mp, OF _ _ _ g2]
    by simp
  from ins bg a0 a1 a2 show ?thesis by (intro conjI)
qed

section \<open>Registration of atoms\<close>

text \<open>
  C5. An atom whose identifier \<open>findAtom\<close> already finds is not registered:
  \<open>registerAtom\<close> returns \<open>false\<close>, the atom passed in is deleted, one line is written to
  the output, and the registry is unchanged, so that \<open>findAtom\<close> of the identifier still
  returns the atom registered first and the number of entries is the same. An atom whose
  identifier is not stored in the registry's map is stored under its identifier:
  \<open>registerAtom\<close> returns \<open>true\<close>, \<open>findAtom\<close> of the identifier returns the atom, no
  atom is deleted and nothing is written.
\<close>

theorem register_atom_rejects_duplicate:
  "(atoms w a = Some atom \<and> findAtom hf (registry w) (getID atom) = Some (Inr (Some b)) \<longrightarrow>
      registerAtom hf (Some a) w =
        Some (Inr (w\<lparr>cout := cout w @ [duplicate_message], atoms := (atoms w)(a := None)\<rparr>,
                   False))
    \<and> (\<forall>w'. registerAtom hf (Some a) w = Some (Inr (w', False)) \<longrightarrow>
           registry w' = registry w
         \<and> atoms w' a = None
         \<and> (\<forall>c. c \<noteq> a \<longrightarrow> atoms w' c = atoms w c)
         \<and> cout w' = cout w @ [duplicate_message]
         \<and> findAtom hf (registry w') (getID atom) = Some (Inr (Some b))
         \<and> size_hm (mAtoms (registry w')) = size_hm (mAtoms (registry w))))
   \<and> (table_inv hf (mAtoms (registry w)) css \<and> atoms w a = Some atom
       \<and> getID atom \<notin> fst ` set (contents (mAtoms (registry w)) css) \<longrightarrow>
      (\<exists>w' css'. registerAtom hf (Some a) w = Some (Inr (w', True))
         \<and> table_inv hf (mAtoms (registry w')) css'
         \<and> set (contents (mAtoms (registry w')) css') =
             insert (getID atom, Some a) (set (contents (mAtoms (registry w)) css))
         \<and> findAtom hf (registry w') (getID atom) = Some (Inr (Some a))
         \<and> atoms w' = atoms w \<and> cout w' = cout w
         \<and> size_hm (mAtoms (registry w')) = size_hm (mAtoms (registry w)) + 1))"
proof (intro conjI impI)
  assume a: "atoms w a = Some atom \<and> findAtom hf (registry w) (getID atom) = Some (Inr (Some b))"
  then show r: "registerAtom hf (Some a) w =
        Some (Inr (w\<lparr>cout := cout w @ [duplicate_message], atoms := (atoms w)(a := None)\<rparr>,
                   False))"
    by (simp add: registerAtom_def)
  show "\<forall>w'. registerAtom hf (Some a) w = Some (Inr (w', False)) \<longrightarrow>
           registry w' = registry w
         \<and> atoms w' a = None
         \<and> (\<forall>c. c \<noteq> a \<longrightarrow> atoms w' c = atoms w c)
         \<and> cout w' = cout w @ [duplicate_message]
         \<and> findAtom hf (registry w') (getID atom) = Some (Inr (Some b))
         \<and> size_hm (mAtoms (registry w')) = size_hm (mAtoms (registry w))"
    using a unfolding r by auto
next
  assume a: "table_inv hf (mAtoms (registry w)) css \<and> atoms w a = Some atom
       \<and> getID atom \<notin> fst ` set (contents (mAtoms (registry w)) css)"
  then have inv: "table_inv hf (mAtoms (registry w)) css" and al: "atoms w a = Some atom"
    and fresh: "getID atom \<notin> fst ` set (contents (mAtoms (registry w)) css)"
    by simp_all
  let ?kv = "(getID atom, Some a)"
  from findAtom_absent [OF inv fresh]
  have fa: "findAtom hf (registry w) (getID atom) = Some (Inr None)" .
  from fresh have fresh': "fst ?kv \<notin> fst ` set (contents (mAtoms (registry w)) css)" by simp
  from insert_hm_new_contents [OF inv fresh', of mAtoms_this]
  obtain m css' it where
    ins: "insert_hm mAtoms_this hf ?kv (mAtoms (registry w)) = Some (Inr (m, it, False))"
    and inv': "table_inv hf m css'"
    and c': "set (contents m css') = insert ?kv (set (contents (mAtoms (registry w)) css))"
    and ne: "mNumEntries m = mNumEntries (mAtoms (registry w)) + 1"
    by blast
  let ?w' = "w\<lparr>registry := (registry w)\<lparr>mAtoms := m\<rparr>\<rparr>"
  from al fa ins have r: "registerAtom hf (Some a) w = Some (Inr (?w', True))"
    by (simp add: registerAtom_def)
  have m: "mAtoms (registry ?w') = m" by simp
  from inv' have i2: "table_inv hf (mAtoms (registry ?w')) css'" by simp
  from c' have "?kv \<in> set (contents (mAtoms (registry ?w')) css')" by simp
  from findAtom_present [OF i2 this]
  have f': "findAtom hf (registry ?w') (getID atom) = Some (Inr (Some a))" .
  have x: "registerAtom hf (Some a) w = Some (Inr (?w', True))
         \<and> table_inv hf (mAtoms (registry ?w')) css'
         \<and> set (contents (mAtoms (registry ?w')) css') =
             insert (getID atom, Some a) (set (contents (mAtoms (registry w)) css))
         \<and> findAtom hf (registry ?w') (getID atom) = Some (Inr (Some a))
         \<and> atoms ?w' = atoms w \<and> cout ?w' = cout w
         \<and> size_hm (mAtoms (registry ?w')) = size_hm (mAtoms (registry w)) + 1"
    using r i2 c' f' ne unfolding m by (simp add: size_hm_def)
  then show "\<exists>w' css'. registerAtom hf (Some a) w = Some (Inr (w', True))
         \<and> table_inv hf (mAtoms (registry w')) css'
         \<and> set (contents (mAtoms (registry w')) css') =
             insert (getID atom, Some a) (set (contents (mAtoms (registry w)) css))
         \<and> findAtom hf (registry w') (getID atom) = Some (Inr (Some a))
         \<and> atoms w' = atoms w \<and> cout w' = cout w
         \<and> size_hm (mAtoms (registry w')) = size_hm (mAtoms (registry w)) + 1"
    by (intro exI [of _ ?w'] exI [of _ css'])
qed

theorem register_atom_rejects_duplicate_witness:
  "table_inv length (mAtoms AtomRegistry_init) (replicate 103 [])
   \<and> getID \<lparr>getID = ''CO2''\<rparr> \<notin> fst ` set (contents (mAtoms AtomRegistry_init) (replicate 103 []))
   \<and> registerAtom length (Some 1)
       \<lparr>atoms = (\<lambda>x. if x = 1 \<or> x = 2 then Some \<lparr>getID = ''CO2''\<rparr> else None), registry = AtomRegistry_init, cout = []\<rparr> =
       Some (Inr (\<lparr>atoms = (\<lambda>x. if x = 1 \<or> x = 2 then Some \<lparr>getID = ''CO2''\<rparr> else None), registry = \<lparr>mAtoms = \<lparr>items = [\<lparr>mKeyValuePair = (''CO2'', Some 1), mNext = None\<rparr>],
          mBuckets = (replicate 103 None)[3 := Some 0], mSize = 103, mNumEntries = 1\<rparr>, mIsCurrentlyDeallocating = False\<rparr>, cout = []\<rparr>, True))
   \<and> findAtom length \<lparr>mAtoms = \<lparr>items = [\<lparr>mKeyValuePair = (''CO2'', Some 1), mNext = None\<rparr>],
          mBuckets = (replicate 103 None)[3 := Some 0], mSize = 103, mNumEntries = 1\<rparr>, mIsCurrentlyDeallocating = False\<rparr> ''CO2'' = Some (Inr (Some 1))
   \<and> registerAtom length (Some 2)
       \<lparr>atoms = (\<lambda>x. if x = 1 \<or> x = 2 then Some \<lparr>getID = ''CO2''\<rparr> else None), registry = \<lparr>mAtoms = \<lparr>items = [\<lparr>mKeyValuePair = (''CO2'', Some 1), mNext = None\<rparr>],
          mBuckets = (replicate 103 None)[3 := Some 0], mSize = 103, mNumEntries = 1\<rparr>, mIsCurrentlyDeallocating = False\<rparr>, cout = []\<rparr> =
       Some (Inr (\<lparr>atoms = ((\<lambda>x. if x = 1 \<or> x = 2 then Some \<lparr>getID = ''CO2''\<rparr> else None))(2 := None), registry = \<lparr>mAtoms = \<lparr>items = [\<lparr>mKeyValuePair = (''CO2'', Some 1), mNext = None\<rparr>],
          mBuckets = (replicate 103 None)[3 := Some 0], mSize = 103, mNumEntries = 1\<rparr>, mIsCurrentlyDeallocating = False\<rparr>, cout = [duplicate_message]\<rparr>, False))
   \<and> findAtom length (registry \<lparr>atoms = ((\<lambda>x. if x = 1 \<or> x = 2 then Some \<lparr>getID = ''CO2''\<rparr> else None))(2 := None), registry = \<lparr>mAtoms = \<lparr>items = [\<lparr>mKeyValuePair = (''CO2'', Some 1), mNext = None\<rparr>],
          mBuckets = (replicate 103 None)[3 := Some 0], mSize = 103, mNumEntries = 1\<rparr>, mIsCurrentlyDeallocating = False\<rparr>, cout = [duplicate_message]\<rparr>) ''CO2'' = Some (Inr (Some 1))
   \<and> size_hm (mAtoms (registry \<lparr>atoms = ((\<lambda>x. if x = 1 \<or> x = 2 then Some \<lparr>getID = ''CO2''\<rparr> else None))(2 := None), registry = \<lparr>mAtoms = \<lparr>items = [\<lparr>mKeyValuePair = (''CO2'', Some 1), mNext = None\<rparr>],
          mBuckets = (replicate 103 None)[3 := Some 0], mSize = 103, mNumEntries = 1\<rparr>, mIsCurrentlyDeallocating = False\<rparr>, cout = [duplicate_message]\<rparr>)) = 1"
proof -
  let ?A = "(\<lambda>x. if x = 1 \<or> x = 2 then Some \<lparr>getID = ''CO2''\<rparr> else None) :: addr \<Rightarrow> Atom option"
  let ?w0 = "\<lparr>atoms = ?A, registry = AtomRegistry_init, cout = []\<rparr>"
  let ?m1 = "\<lparr>items = [\<lparr>mKeyValuePair = (''CO2'', Some 1), mNext = None\<rparr>],
          mBuckets = (replicate 103 None)[3 := Some 0], mSize = 103, mNumEntries = 1\<rparr>"
  let ?r1 = "\<lparr>mAtoms = ?m1, mIsCurrentlyDeallocating = False\<rparr>"
  let ?w1 = "\<lparr>atoms = ?A, registry = ?r1, cout = []\<rparr>"
  have h1: "table_inv length (mAtoms (registry ?w0)) (replicate 103 [])"
    using HashMap_init_inv [of 103 length]
    by (simp add: AtomRegistry_init_def getInitialSize_def)
  have h2: "atoms ?w0 1 = Some \<lparr>getID = ''CO2''\<rparr>" by simp
  have h3: "getID \<lparr>getID = ''CO2''\<rparr> \<notin>
      fst ` set (contents (mAtoms (registry ?w0)) (replicate 103 []))"
    by (simp add: AtomRegistry_init_def getInitialSize_def)
  have f0: "findAtom length AtomRegistry_init ''CO2'' = Some (Inr None)" by code_simp
  have i0: "insert_hm mAtoms_this length (''CO2'', Some 1) (mAtoms AtomRegistry_init) =
      Some (Inr (?m1, new_iterator (Some 0) 3 (Some 0), False))"
    by code_simp
  have r0: "registerAtom length (Some 1) ?w0 =
      Some (Inr (?w0\<lparr>registry := (registry ?w0)\<lparr>mAtoms := ?m1\<rparr>\<rparr>, True))"
    by (simp add: registerAtom_def f0 i0 del: One_nat_def)
  have "?w0\<lparr>registry := (registry ?w0)\<lparr>mAtoms := ?m1\<rparr>\<rparr> = ?w1"
    by (simp add: AtomRegistry_init_def)
  with r0 have e0: "registerAtom length (Some 1) ?w0 = Some (Inr (?w1, True))"
    by simp
  have g1: "atoms ?w1 2 = Some \<lparr>getID = ''CO2''\<rparr>" by simp
  have g2: "findAtom length ?r1 ''CO2'' = Some (Inr (Some 1))" by code_simp
  from g2 have g2': "findAtom length (registry ?w1) (getID \<lparr>getID = ''CO2''\<rparr>) =
      Some (Inr (Some 1))" by simp
  note T = register_atom_rejects_duplicate
             [where w = ?w1 and a = 2 and atom = "\<lparr>getID = ''CO2''\<rparr>" and hf = length
                and b = 1, THEN conjunct1, THEN mp, OF conjI [OF g1 g2']]
  from T [THEN conjunct1]
  have e1: "registerAtom length (Some 2) ?w1 =
      Some (Inr (\<lparr>atoms = ?A(2 := None), registry = ?r1, cout = [duplicate_message]\<rparr>, False))"
    by (simp del: One_nat_def)
  from T [THEN conjunct2, THEN spec, THEN mp, OF e1]
  have e2: "findAtom length ?r1 ''CO2'' = Some (Inr (Some 1))"
    "size_hm ?m1 = 1"
    by (simp_all add: size_hm_def del: One_nat_def)
  note U = register_atom_rejects_duplicate
             [where w = ?w0 and a = 1 and atom = "\<lparr>getID = ''CO2''\<rparr>" and hf = length
                and css = "replicate 103 []", THEN conjunct2, THEN mp,
              OF conjI [OF h1 conjI [OF h2 h3]]]
  from U e0 have e3: "findAtom length ?r1 ''CO2'' = Some (Inr (Some 1))"
    by (auto simp del: One_nat_def)
  let ?w2 = "\<lparr>atoms = ?A(2 := None), registry = ?r1, cout = [duplicate_message]\<rparr>"
  from h1 have k1: "table_inv length (mAtoms AtomRegistry_init) (replicate 103 [])" by simp
  from h3 have k2: "getID \<lparr>getID = ''CO2''\<rparr> \<notin>
      fst ` set (contents (mAtoms AtomRegistry_init) (replicate 103 []))" by simp
  from e2(1) have k6: "findAtom length (registry ?w2) ''CO2'' = Some (Inr (Some 1))"
    by (simp del: One_nat_def)
  from e2(2) have k7: "size_hm (mAtoms (registry ?w2)) = 1" by (simp del: One_nat_def)
  from k1 k2 e0 e3 e1 k6 k7 show ?thesis by (intro conjI)
qed

end
